theory Spec2Isabelle
  imports
    Main
    "HOL-Library.Multiset"
    "HOL-Library.Extended_Nat"
    "HOL-Library.Char_ord"
    "HOL-Library.List_Lexorder"
    "HOL-Library.Product_Lexorder"
begin

unbundle bit_operations_syntax

section \<open>Network blocks\<close>

text \<open>
  The program works on the network objects of Python's \<^verbatim>\<open>ipaddress\<close> module
  (\<^verbatim>\<open>IPv4Network\<close>, \<^verbatim>\<open>IPv6Network\<close>). A network object carries its address
  family, its network address (an integer) and its prefix length. The functions of that
  module which \<^verbatim>\<open>generate_azure_ipam.py\<close> calls are embedded here as the module
  defines them, with every \<^verbatim>\<open>raise\<close> as an \<open>Inl\<close> value.
\<close>

datatype ip_version = IPv4 | IPv6

datatype error = TypeError | ValueError | AssertionError | KeyError

record net =
  version :: ip_version
  network_address :: nat
  prefixlen :: nat

fun max_prefixlen :: "ip_version \<Rightarrow> nat" where
  "max_prefixlen IPv4 = 32"
| "max_prefixlen IPv6 = 128"

text \<open>\<^verbatim>\<open>hostmask\<close> is all-ones shifted right by the prefix length.\<close>

definition hostmask :: "net \<Rightarrow> nat" where
  "hostmask n = 2 ^ (max_prefixlen (version n) - prefixlen n) - 1"

text \<open>\<^verbatim>\<open>broadcast_address = network_address | hostmask\<close>.\<close>

definition broadcast_address :: "net \<Rightarrow> nat" where
  "broadcast_address n = network_address n OR hostmask n"

text \<open>\<^verbatim>\<open>num_addresses = broadcast_address - network_address + 1\<close>.\<close>

definition num_addresses :: "net \<Rightarrow> nat" where
  "num_addresses n = broadcast_address n - network_address n + 1"

text \<open>
  The invariant of a network object built with \<^verbatim>\<open>strict=True\<close> (the default, the only
  one the program uses): the prefix length is at most the address width, the address fits
  the width and has no host bits set.
\<close>

definition valid_net :: "net \<Rightarrow> bool" where
  "valid_net n \<longleftrightarrow>
     prefixlen n \<le> max_prefixlen (version n) \<and>
     network_address n < 2 ^ max_prefixlen (version n) \<and>
     network_address n AND hostmask n = 0"

text \<open>
  \<^verbatim>\<open>a.subnet_of(b)\<close>: raises \<^verbatim>\<open>TypeError\<close> when the versions differ, otherwise
  \<^verbatim>\<open>b.network_address <= a.network_address and b.broadcast_address >= a.broadcast_address\<close>.
\<close>

definition subnet_of :: "net \<Rightarrow> net \<Rightarrow> error + bool" where
  "subnet_of a b =
     (if version a \<noteq> version b then Inl TypeError
      else Inr (network_address b \<le> network_address a \<and>
                broadcast_address b \<ge> broadcast_address a))"

text \<open>\<^verbatim>\<open>range(start, stop, step)\<close> for a positive step.\<close>

definition py_range :: "nat \<Rightarrow> nat \<Rightarrow> nat \<Rightarrow> nat list" where
  "py_range start stop step =
     map (\<lambda>i. start + i * step) [0 ..< (stop - start + step - 1) div step]"

text \<open>
  \<^verbatim>\<open>self.subnets()\<close> with the default \<^verbatim>\<open>prefixlen_diff=1\<close>: a network of maximal
  prefix length yields itself; otherwise the new prefix length is one more (a
  \<^verbatim>\<open>ValueError\<close> if that exceeds the width) and one network is yielded for each
  address of \<^verbatim>\<open>range(network_address, broadcast_address + 1, (hostmask + 1) >> 1)\<close>.
  The constructor called on each address rejects host bits; on the two halves of a network
  object there are none (lemmas \<open>valid_lo_half\<close> and \<open>valid_hi_half\<close> below).
\<close>

definition subnets :: "net \<Rightarrow> error + net list" where
  "subnets n =
     (if prefixlen n = max_prefixlen (version n) then Inr [n]
      else if prefixlen n + 1 > max_prefixlen (version n) then Inl ValueError
      else Inr (map (\<lambda>a. \<lparr>version = version n, network_address = a,
                            prefixlen = prefixlen n + 1\<rparr>)
                  (py_range (network_address n) (broadcast_address n + 1)
                     (drop_bit 1 (hostmask n + 1)))))"

text \<open>
  The unpacking \<^verbatim>\<open>s1, s2 = x.subnets()\<close> raises \<^verbatim>\<open>ValueError\<close> unless exactly two
  networks are yielded.
\<close>

definition unpack2 :: "net list \<Rightarrow> error + net \<times> net" where
  "unpack2 xs = (case xs of [a, b] \<Rightarrow> Inr (a, b) | _ \<Rightarrow> Inl ValueError)"

definition two_subnets :: "net \<Rightarrow> error + net \<times> net" where
  "two_subnets n = (case subnets n of Inl e \<Rightarrow> Inl e | Inr xs \<Rightarrow> unpack2 xs)"

definition room :: "net \<Rightarrow> nat" where
  "room n = max_prefixlen (version n) - prefixlen n"

lemma two_subnets_room:
  assumes "two_subnets n = Inr (a, b)"
  shows "room a < room n" and "room b < room n"
proof -
  have lt: "prefixlen n < max_prefixlen (version n)"
    using assms
    by (auto simp: two_subnets_def subnets_def unpack2_def
        split: if_splits list.splits)
  have "version a = version n \<and> prefixlen a = prefixlen n + 1 \<and>
        version b = version n \<and> prefixlen b = prefixlen n + 1"
    using assms
    by (auto simp: two_subnets_def subnets_def unpack2_def map_eq_Cons_conv
        split: if_splits list.splits)
  with lt show "room a < room n" and "room b < room n"
    by (simp_all add: room_def)
qed

text \<open>
  The \<^verbatim>\<open>while\<close> loop of \<^verbatim>\<open>address_exclude\<close> and the final test after it. The
  generator is consumed whole by \<^verbatim>\<open>list.extend\<close>, so an exception raised after some
  blocks were yielded makes the whole call fail.
\<close>

function exclude_loop :: "net \<Rightarrow> net \<Rightarrow> net \<Rightarrow> error + net list" where
  "exclude_loop s1 s2 other =
     (if s1 \<noteq> other \<and> s2 \<noteq> other then
        (case subnet_of other s1 of
           Inl e \<Rightarrow> Inl e
         | Inr True \<Rightarrow>
             (case two_subnets s1 of
                Inl e \<Rightarrow> Inl e
              | Inr (t1, t2) \<Rightarrow>
                  (case exclude_loop t1 t2 other of
                     Inl e \<Rightarrow> Inl e
                   | Inr rest \<Rightarrow> Inr (s2 # rest)))
         | Inr False \<Rightarrow>
             (case subnet_of other s2 of
                Inl e \<Rightarrow> Inl e
              | Inr True \<Rightarrow>
                  (case two_subnets s2 of
                     Inl e \<Rightarrow> Inl e
                   | Inr (t1, t2) \<Rightarrow>
                       (case exclude_loop t1 t2 other of
                          Inl e \<Rightarrow> Inl e
                        | Inr rest \<Rightarrow> Inr (s1 # rest)))
              | Inr False \<Rightarrow> Inl AssertionError))
      else if s1 = other then Inr [s2]
      else if s2 = other then Inr [s1]
      else Inl AssertionError)"
  by pat_completeness auto
termination
proof (relation "measure (\<lambda>(s1, s2, other). max (room s1) (room s2))")
  show "wf (measure (\<lambda>(s1, s2, other). max (room s1) (room s2)))"
    by simp
next
  fix s1 s2 other :: net and x2 b and x y
  assume "two_subnets s1 = Inr x" "(b, y) = x"
  then show "((b, y, other), s1, s2, other)
      \<in> measure (\<lambda>(s1, s2, other). max (room s1) (room s2))"
    using two_subnets_room [of s1 b y] by auto
next
  fix s1 s2 other :: net and x2 b and x y
  assume "two_subnets s2 = Inr x" "(b, y) = x"
  then show "((b, y, other), s1, s2, other)
      \<in> measure (\<lambda>(s1, s2, other). max (room s1) (room s2))"
    using two_subnets_room [of s2 b y] by auto
qed

declare exclude_loop.simps [simp del]

text \<open>
  \<^verbatim>\<open>self.address_exclude(other)\<close>. The re-construction of \<^verbatim>\<open>other\<close> from its own
  network address and prefix length returns an equal network object.
\<close>

definition address_exclude :: "net \<Rightarrow> net \<Rightarrow> error + net list" where
  "address_exclude self other =
     (if version self \<noteq> version other then Inl TypeError
      else (case subnet_of other self of
              Inl e \<Rightarrow> Inl e
            | Inr False \<Rightarrow> Inl ValueError
            | Inr True \<Rightarrow>
                if other = self then Inr []
                else (case two_subnets self of
                        Inl e \<Rightarrow> Inl e
                      | Inr (s1, s2) \<Rightarrow> exclude_loop s1 s2 other)))"

section \<open>The exclusion engine: \<^verbatim>\<open>find_unused_subnets\<close>\<close>

text \<open>
  The occupied blocks are given as the network objects that \<^verbatim>\<open>ip_network\<close> makes of
  the elements of \<^verbatim>\<open>used_networks\<close> (the program passes the texts of network objects); a
  text that does not parse raises before the first exclusion and has no network object.

  \<^verbatim>\<open>sorted(..., key=lambda n: (n.network_address, n.prefixlen))\<close>. Comparing the
  addresses of two networks of different versions raises \<^verbatim>\<open>TypeError\<close>, and a sort
  compares the neighbours of its result, so the call fails exactly when two versions are
  present. Otherwise the sort is stable on the pair (address, prefix length).
\<close>

definition sort_used :: "net list \<Rightarrow> error + net list" where
  "sort_used ns =
     (if \<exists>a\<in>set ns. \<exists>b\<in>set ns. version a \<noteq> version b then Inl TypeError
      else Inr (sort_key (\<lambda>n. (network_address n, prefixlen n)) ns))"

text \<open>The inner loop over \<^verbatim>\<open>available\<close> for one occupied block \<^verbatim>\<open>u\<close>.\<close>

fun exclude_one :: "net \<Rightarrow> net list \<Rightarrow> error + net list" where
  "exclude_one u [] = Inr []"
| "exclude_one u (a # as) =
     (case subnet_of u a of
        Inl e \<Rightarrow> Inl e
      | Inr True \<Rightarrow>
          (case address_exclude a u of
             Inl e \<Rightarrow> Inl e
           | Inr parts \<Rightarrow>
               (case exclude_one u as of
                  Inl e \<Rightarrow> Inl e
                | Inr rest \<Rightarrow> Inr (parts @ rest)))
      | Inr False \<Rightarrow>
          (case exclude_one u as of
             Inl e \<Rightarrow> Inl e
           | Inr rest \<Rightarrow> Inr (a # rest)))"

text \<open>The outer loop over the sorted occupied blocks.\<close>

fun exclude_all :: "net list \<Rightarrow> net list \<Rightarrow> error + net list" where
  "exclude_all [] available = Inr available"
| "exclude_all (u # us) available =
     (case exclude_one u available of
        Inl e \<Rightarrow> Inl e
      | Inr new_available \<Rightarrow> exclude_all us new_available)"

definition find_unused_subnets :: "net \<Rightarrow> net list \<Rightarrow> error + net list" where
  "find_unused_subnets parent_cidr used_networks =
     (case sort_used used_networks of
        Inl e \<Rightarrow> Inl e
      | Inr used \<Rightarrow> exclude_all used [parent_cidr])"

section \<open>Blocks as sets of addresses\<close>

definition addrs :: "net \<Rightarrow> nat set" where
  "addrs n = {network_address n .. broadcast_address n}"

definition lo_half :: "net \<Rightarrow> net" where
  "lo_half n = \<lparr>version = version n, network_address = network_address n, prefixlen = prefixlen n + 1\<rparr>"

definition hi_half :: "net \<Rightarrow> net" where
  "hi_half n = \<lparr>version = version n, network_address = network_address n + 2 ^ (room n - 1), prefixlen = prefixlen n + 1\<rparr>"

lemma hostmask_room: "hostmask n = 2 ^ room n - 1"
  by (simp add: hostmask_def room_def)

lemma hostmask_mask: "hostmask n = mask (room n)"
  by (simp add: hostmask_room mask_eq_exp_minus_1)

lemma valid_net_dvd:
  "valid_net n \<longleftrightarrow> prefixlen n \<le> max_prefixlen (version n) \<and>
     network_address n < 2 ^ max_prefixlen (version n) \<and> 2 ^ room n dvd network_address n"
  by (simp add: valid_net_def hostmask_mask flip: take_bit_eq_mask) (simp add: take_bit_eq_mod mod_eq_0_iff_dvd)

lemma broadcast_valid:
  assumes "valid_net n"
  shows "broadcast_address n = network_address n + 2 ^ room n - 1"
proof -
  have "network_address n AND hostmask n = 0" using assms by (simp add: valid_net_def)
  then have "network_address n + hostmask n = network_address n OR hostmask n"
    by (rule disjunctive_add_eq_or)
  then show ?thesis by (simp add: broadcast_address_def hostmask_room)
qed

lemma addrs_valid:
  "valid_net n \<Longrightarrow> addrs n = {network_address n ..< network_address n + 2 ^ room n}"
proof -
  assume v: "valid_net n"
  have "{a .. a + p - 1} = {a ..< a + p}" if "0 < p" for a p :: nat
    using that by auto
  from this [of "2 ^ room n" "network_address n"] show ?thesis
    unfolding addrs_def broadcast_valid [OF v] by simp
qed

lemma num_addresses_valid: "valid_net n \<Longrightarrow> num_addresses n = 2 ^ room n"
  by (simp add: num_addresses_def broadcast_valid)

lemma two_subnets_valid:
  assumes "valid_net n" "prefixlen n < max_prefixlen (version n)"
  shows "two_subnets n = Inr (lo_half n, hi_half n)"
proof -
  obtain k where k: "room n = Suc k" using assms(2) by (cases "room n") (auto simp: room_def)
  have b: "broadcast_address n + 1 = network_address n + 2 ^ room n"
    by (simp add: broadcast_valid [OF assms(1)])
  have h: "hostmask n + 1 = 2 ^ room n" by (simp add: hostmask_room)
  have "((2::nat) * 2 ^ k + 2 ^ k - 1) div 2 ^ k = 2"
    by (rule div_nat_eqI) (simp_all add: algebra_simps)
  then have "py_range (network_address n) (broadcast_address n + 1) (drop_bit 1 (hostmask n + 1))
      = [network_address n, network_address n + 2 ^ k]"
    unfolding b h by (simp add: py_range_def k drop_bit_eq_div upt_rec)
  then show ?thesis using assms(2)
    by (simp add: two_subnets_def subnets_def unpack2_def lo_half_def hi_half_def k)
qed

lemma two_subnets_Inr:
  assumes "valid_net n" "two_subnets n = Inr (a, b)"
  shows "prefixlen n < max_prefixlen (version n) \<and> a = lo_half n \<and> b = hi_half n"
proof -
  have lt: "prefixlen n < max_prefixlen (version n)"
    using assms(2)
    by (auto simp: two_subnets_def subnets_def unpack2_def split: if_splits list.splits)
  with two_subnets_valid [OF assms(1) lt] assms(2) show ?thesis by simp
qed

lemma valid_lo_half:
  assumes "valid_net n" "prefixlen n < max_prefixlen (version n)"
  shows "valid_net (lo_half n)"
proof -
  obtain k where k: "room n = Suc k" using assms(2) by (cases "room n") (auto simp: room_def)
  have rk: "room (lo_half n) = k" using k by (simp add: room_def lo_half_def)
  have "(2::nat) ^ k dvd 2 ^ Suc k" by simp
  then have "2 ^ k dvd network_address n"
    using assms(1) k unfolding valid_net_dvd by (metis dvd_trans)
  then show ?thesis using assms rk
    by (simp add: valid_net_dvd) (simp add: lo_half_def)
qed

lemma valid_hi_half:
  assumes "valid_net n" "prefixlen n < max_prefixlen (version n)"
  shows "valid_net (hi_half n)"
proof -
  obtain k where k: "room n = Suc k" using assms(2) by (cases "room n") (auto simp: room_def)
  have rk: "room (hi_half n) = k" using k by (simp add: room_def hi_half_def)
  have d: "2 ^ Suc k dvd network_address n"
    using assms(1) k unfolding valid_net_dvd by simp
  have "(2::nat) ^ k dvd 2 ^ Suc k" by simp
  with d have dk: "2 ^ k dvd network_address n" by (metis dvd_trans)
  let ?M = "max_prefixlen (version n)"
  have "Suc k \<le> ?M" using k by (simp add: room_def)
  then have "(2::nat) ^ Suc k dvd 2 ^ ?M" by (rule le_imp_power_dvd)
  moreover have "network_address n < 2 ^ ?M" using assms(1) by (simp add: valid_net_dvd)
  ultimately have le: "network_address n + 2 ^ Suc k \<le> 2 ^ ?M"
    using d by (metis dvd_imp_le less_imp_add_positive  dvd_add_right_iff add.commute zero_less_numeral zero_less_power add_le_cancel_left)
  have "a + p < m" if "0 < p" "a + 2 * p \<le> m" for a p m :: nat
    using that by arith
  from this [of "2 ^ k" "network_address n" "2 ^ ?M"] le
  have "network_address n + 2 ^ k < 2 ^ ?M"
    by simp
  then show ?thesis using assms rk dk k
    by (simp add: valid_net_dvd) (simp add: hi_half_def)
qed

lemma aligned_cases:
  fixes a b :: nat
  assumes "2 ^ k dvd a" "2 ^ j dvd b" "j \<le> k"
  shows "(a \<le> b \<and> b + 2 ^ j \<le> a + 2 ^ k) \<or> b + 2 ^ j \<le> a \<or> a + 2 ^ k \<le> b"
proof -
  from assms(1) obtain p where a: "a = 2 ^ k * p" ..
  from assms(2) obtain q where b: "b = 2 ^ j * q" ..
  define d :: nat where "d = 2 ^ (k - j)"
  define e :: nat where "e = 2 ^ j"
  have kd: "(2::nat) ^ k = e * d"
    using assms(3) by (simp add: d_def e_def flip: power_add)
  have a': "a = e * (d * p)" by (simp add: a kd mult.assoc)
  have b': "b = e * q" by (simp add: b e_def)
  have s: "a + 2 ^ k = e * (d * p + d)" by (simp add: a' kd algebra_simps)
  have t: "b + 2 ^ j = e * Suc q" by (simp add: b' e_def)
  consider "Suc q \<le> d * p" | "d * p \<le> q \<and> Suc q \<le> d * p + d" | "d * p + d \<le> q"
    by linarith
  then show ?thesis
  proof cases
    case 1
    then have "e * Suc q \<le> e * (d * p)" by (rule mult_le_mono2)
    then show ?thesis unfolding t a' by simp
  next
    case 2
    then have "e * (d * p) \<le> e * q" "e * Suc q \<le> e * (d * p + d)"
      by (simp_all only: mult_le_mono2)
    then show ?thesis unfolding s t unfolding a' b' by blast
  next
    case 3
    then have "e * (d * p + d) \<le> e * q" by (rule mult_le_mono2)
    then show ?thesis unfolding s unfolding b' by blast
  qed
qed

lemma addrs_nonempty: "valid_net n \<Longrightarrow> network_address n \<in> addrs n"
  by (simp add: addrs_valid)

lemma room_le_imp_nested_or_disjoint:
  assumes "valid_net a" "valid_net b" "room b \<le> room a"
  shows "addrs b \<subseteq> addrs a \<or> addrs b \<inter> addrs a = {}"
proof -
  have "2 ^ room a dvd network_address a" "2 ^ room b dvd network_address b"
    using assms by (simp_all add: valid_net_dvd)
  from aligned_cases [OF this assms(3)] show ?thesis
    unfolding addrs_valid [OF assms(1)] addrs_valid [OF assms(2)] by auto
qed

lemma subset_imp_room_le:
  assumes "valid_net a" "valid_net b" "addrs b \<subseteq> addrs a"
  shows "room b \<le> room a"
proof -
  have "finite (addrs a)" by (simp add: addrs_def)
  then have "card (addrs b) \<le> card (addrs a)" using assms(3) by (rule card_mono)
  then have "(2::nat) ^ room b \<le> 2 ^ room a"
    by (simp add: addrs_valid assms)
  then show ?thesis by simp
qed

lemma room_eq_prefixlen:
  assumes "valid_net a" "valid_net b" "version a = version b" "room a = room b"
  shows "prefixlen a = prefixlen b"
proof -
  have "prefixlen a \<le> max_prefixlen (version b)" "prefixlen b \<le> max_prefixlen (version b)"
    "max_prefixlen (version b) - prefixlen a = max_prefixlen (version b) - prefixlen b"
    using assms by (simp_all add: room_def valid_net_def)
  then show ?thesis by arith
qed

lemma subset_same_room_eq:
  assumes "valid_net a" "valid_net b" "version a = version b"
    "addrs b \<subseteq> addrs a" "room a = room b"
  shows "a = b"
proof -
  have "card (addrs a) = card (addrs b)" by (simp add: addrs_valid assms)
  moreover have "finite (addrs a)" by (simp add: addrs_def)
  ultimately have "addrs b = addrs a" using assms(4) by (simp add: card_subset_eq)
  then have "network_address a = network_address b"
    unfolding addrs_valid [OF assms(1)] addrs_valid [OF assms(2)]
    by (metis atLeastLessThan_inj(1) add_less_same_cancel1 not_less_zero zero_less_numeral zero_less_power less_add_same_cancel1)
  with room_eq_prefixlen [OF assms(1,2,3,5)] assms(3) show ?thesis by simp
qed

lemma subnet_of_addrs:
  assumes "valid_net a" "valid_net b" "version a = version b"
  shows "subnet_of a b = Inr (addrs a \<subseteq> addrs b)"
proof -
  have "network_address a \<le> broadcast_address a"
    using addrs_nonempty [OF assms(1)] by (simp add: addrs_def)
  then show ?thesis using assms(3)
    by (auto simp: subnet_of_def addrs_def)
qed

lemma room_halves:
  "prefixlen n < max_prefixlen (version n) \<Longrightarrow> room (lo_half n) = room n - 1"
  "prefixlen n < max_prefixlen (version n) \<Longrightarrow> room (hi_half n) = room n - 1"
  by (simp_all add: room_def lo_half_def hi_half_def)

lemma version_halves [simp]:
  "version (lo_half n) = version n" "version (hi_half n) = version n"
  by (simp_all add: lo_half_def hi_half_def)

lemma addrs_halves:
  assumes "valid_net n" "prefixlen n < max_prefixlen (version n)"
  shows "addrs (lo_half n) \<union> addrs (hi_half n) = addrs n"
    and "addrs (lo_half n) \<inter> addrs (hi_half n) = {}"
proof -
  obtain k where k: "room n = Suc k" using assms(2) by (cases "room n") (auto simp: room_def)
  have l: "addrs (lo_half n) = {network_address n ..< network_address n + 2 ^ k}"
    using addrs_valid [OF valid_lo_half [OF assms]] room_halves(1) [OF assms(2)] k
    by (simp add: lo_half_def)
  have h: "addrs (hi_half n) = {network_address n + 2 ^ k ..< network_address n + 2 ^ k + 2 ^ k}"
    using addrs_valid [OF valid_hi_half [OF assms]] room_halves(2) [OF assms(2)] k
    by (simp add: hi_half_def)
  have n: "addrs n = {network_address n ..< network_address n + 2 ^ k + 2 ^ k}"
    using addrs_valid [OF assms(1)] k by (simp add: mult_2 add.assoc)
  show "addrs (lo_half n) \<union> addrs (hi_half n) = addrs n"
    unfolding l h n by auto
  show "addrs (lo_half n) \<inter> addrs (hi_half n) = {}"
    unfolding l h by auto
qed

lemma strict_subnet_in_half:
  assumes "valid_net n" "valid_net other" "version other = version n"
    "addrs other \<subseteq> addrs n" "other \<noteq> n"
  shows "prefixlen n < max_prefixlen (version n)"
    and "addrs other \<subseteq> addrs (lo_half n) \<or> addrs other \<subseteq> addrs (hi_half n)"
proof -
  have "room other \<le> room n" using assms by (simp add: subset_imp_room_le)
  moreover have "room other \<noteq> room n"
    using subset_same_room_eq [OF assms(1,2) assms(3) [symmetric] assms(4)] assms(5) by auto
  ultimately have lt: "room other < room n" by simp
  then show p: "prefixlen n < max_prefixlen (version n)" by (simp add: room_def)
  have vl: "valid_net (lo_half n)" and vh: "valid_net (hi_half n)"
    using assms(1) p by (simp_all add: valid_lo_half valid_hi_half)
  have "room other \<le> room (lo_half n)" "room other \<le> room (hi_half n)"
    using lt by (simp_all add: room_halves [OF p])
  then have "addrs other \<subseteq> addrs (lo_half n) \<or> addrs other \<inter> addrs (lo_half n) = {}"
    "addrs other \<subseteq> addrs (hi_half n) \<or> addrs other \<inter> addrs (hi_half n) = {}"
    using room_le_imp_nested_or_disjoint vl vh assms(2) by simp_all
  moreover have "network_address other \<in> addrs (lo_half n) \<union> addrs (hi_half n)"
    using addrs_halves(1) [OF assms(1) p] assms(4) addrs_nonempty [OF assms(2)] by auto
  moreover note addrs_nonempty [OF assms(2)]
  ultimately show "addrs other \<subseteq> addrs (lo_half n) \<or> addrs other \<subseteq> addrs (hi_half n)"
    by blast
qed

section \<open>Correctness of \<^verbatim>\<open>address_exclude\<close>\<close>

fun disjoint_blocks :: "net list \<Rightarrow> bool" where
  "disjoint_blocks [] = True"
| "disjoint_blocks (x # xs) = ((\<forall>y\<in>set xs. addrs x \<inter> addrs y = {}) \<and> disjoint_blocks xs)"

definition covered :: "net list \<Rightarrow> nat set" where
  "covered xs = (\<Union>x\<in>set xs. addrs x)"

lemma covered_simps [simp]:
  "covered [] = {}" "covered (x # xs) = addrs x \<union> covered xs"
  "covered (xs @ ys) = covered xs \<union> covered ys"
  by (auto simp: covered_def)

lemma disjoint_blocks_Cons:
  "disjoint_blocks (x # xs) \<longleftrightarrow> addrs x \<inter> covered xs = {} \<and> disjoint_blocks xs"
  by (auto simp: covered_def)

lemma disjoint_blocks_append:
  "disjoint_blocks (xs @ ys) \<longleftrightarrow>
     disjoint_blocks xs \<and> disjoint_blocks ys \<and> covered xs \<inter> covered ys = {}"
  by (induction xs) (auto simp: disjoint_blocks_Cons simp del: disjoint_blocks.simps(2))

lemma exclude_loop_unfold_ne:
  assumes "s1 \<noteq> other" "s2 \<noteq> other"
  shows "exclude_loop s1 s2 other =
     (case subnet_of other s1 of
        Inl e \<Rightarrow> Inl e
      | Inr True \<Rightarrow>
          (case two_subnets s1 of
             Inl e \<Rightarrow> Inl e
           | Inr (t1, t2) \<Rightarrow>
               (case exclude_loop t1 t2 other of
                  Inl e \<Rightarrow> Inl e
                | Inr rest \<Rightarrow> Inr (s2 # rest)))
      | Inr False \<Rightarrow>
          (case subnet_of other s2 of
             Inl e \<Rightarrow> Inl e
           | Inr True \<Rightarrow>
               (case two_subnets s2 of
                  Inl e \<Rightarrow> Inl e
                | Inr (t1, t2) \<Rightarrow>
                    (case exclude_loop t1 t2 other of
                       Inl e \<Rightarrow> Inl e
                     | Inr rest \<Rightarrow> Inr (s1 # rest)))
           | Inr False \<Rightarrow> Inl AssertionError))"
  by (subst exclude_loop.simps) (simp only: assms simp_thms if_True)

lemma exclude_loop_unfold_eq:
  "s1 = other \<or> s2 = other \<Longrightarrow>
   exclude_loop s1 s2 other = (if s1 = other then Inr [s2] else Inr [s1])"
  by (subst exclude_loop.simps) auto

lemma exclude_loop_descend_left:
  assumes "s1 \<noteq> other" "s2 \<noteq> other" "subnet_of other s1 = Inr True"
    "exclude_loop s1 s2 other = Inr parts"
  shows "\<exists>t1 t2 rest. two_subnets s1 = Inr (t1, t2) \<and>
           exclude_loop t1 t2 other = Inr rest \<and> parts = s2 # rest"
proof (cases "two_subnets s1")
  case (Inl e)
  with assms show ?thesis by (simp add: exclude_loop_unfold_ne)
next
  case (Inr p)
  obtain t1 t2 where p: "p = (t1, t2)" by (cases p)
  show ?thesis
  proof (cases "exclude_loop t1 t2 other")
    case (Inl e)
    with assms Inr p show ?thesis by (simp add: exclude_loop_unfold_ne)
  next
    case r: (Inr rest)
    with assms Inr p show ?thesis by (simp add: exclude_loop_unfold_ne)
  qed
qed

lemma exclude_loop_descend_right:
  assumes "s1 \<noteq> other" "s2 \<noteq> other" "subnet_of other s1 \<noteq> Inr True"
    "exclude_loop s1 s2 other = Inr parts"
  shows "subnet_of other s1 = Inr False \<and> subnet_of other s2 = Inr True \<and>
         (\<exists>t1 t2 rest. two_subnets s2 = Inr (t1, t2) \<and>
           exclude_loop t1 t2 other = Inr rest \<and> parts = s1 # rest)"
proof -
  have f: "subnet_of other s1 = Inr False"
    using assms by (cases "subnet_of other s1") (auto simp: exclude_loop_unfold_ne)
  have t: "subnet_of other s2 = Inr True"
    using assms f by (cases "subnet_of other s2") (auto simp: exclude_loop_unfold_ne split: bool.splits)
  show ?thesis
  proof (cases "two_subnets s2")
    case (Inl e)
    with assms f t show ?thesis by (simp add: exclude_loop_unfold_ne)
  next
    case (Inr p)
    obtain t1 t2 where p: "p = (t1, t2)" by (cases p)
    show ?thesis
    proof (cases "exclude_loop t1 t2 other")
      case (Inl e)
      with assms f t Inr p show ?thesis by (simp add: exclude_loop_unfold_ne)
    next
      case r: (Inr rest)
      with assms f t Inr p show ?thesis by (simp add: exclude_loop_unfold_ne)
    qed
  qed
qed

lemma exclude_loop_parts:
  assumes "exclude_loop s1 s2 other = Inr parts" "valid_net s1" "valid_net s2"
    "version s1 = v" "version s2 = v"
  shows "\<forall>p\<in>set parts. valid_net p \<and> version p = v \<and> addrs p \<subseteq> addrs s1 \<union> addrs s2"
  using assms
proof (induction s1 s2 other arbitrary: parts rule: exclude_loop.induct)
  case (1 s1 s2 other)
  show ?case
  proof (cases "s1 \<noteq> other \<and> s2 \<noteq> other")
    case False
    then have "s1 = other \<or> s2 = other" by simp
    from exclude_loop_unfold_eq [OF this] "1.prems"(1)
    have "parts = [s2] \<or> parts = [s1]"
      by (simp split: if_splits)
    then show ?thesis using "1.prems" by auto
  next
    case ne: True
    then have ne1: "s1 \<noteq> other" and ne2: "s2 \<noteq> other" by simp_all
    show ?thesis
    proof (cases "subnet_of other s1 = Inr True")
      case in1: True
      from exclude_loop_descend_left [OF ne1 ne2 in1 "1.prems"(1)] obtain t1 t2 rest where
        t: "two_subnets s1 = Inr (t1, t2)" and
        r: "exclude_loop t1 t2 other = Inr rest" and p: "parts = s2 # rest"
        by blast
      from two_subnets_Inr [OF "1.prems"(2) t]
      have lt: "prefixlen s1 < max_prefixlen (version s1)"
        and t1: "t1 = lo_half s1" and t2: "t2 = hi_half s1" by simp_all
      have vt: "valid_net t1" "valid_net t2" "version t1 = v" "version t2 = v"
        using "1.prems"(2,4) lt by (simp_all add: t1 t2 valid_lo_half valid_hi_half)
      have "\<forall>p\<in>set rest. valid_net p \<and> version p = v \<and> addrs p \<subseteq> addrs t1 \<union> addrs t2"
        by (rule "1.IH"(1) [OF ne in1 refl t refl r vt])
      then show ?thesis
        using "1.prems"(2,3,5) addrs_halves(1) [OF "1.prems"(2) lt]
        unfolding p t1 t2 by auto
    next
      case nin1: False
      from exclude_loop_descend_right [OF ne1 ne2 nin1 "1.prems"(1)] obtain t1 t2 rest where
        f: "subnet_of other s1 = Inr False" and
        in2: "subnet_of other s2 = Inr True" and
        t: "two_subnets s2 = Inr (t1, t2)" and
        r: "exclude_loop t1 t2 other = Inr rest" and p: "parts = s1 # rest"
        by blast
      from two_subnets_Inr [OF "1.prems"(3) t]
      have lt: "prefixlen s2 < max_prefixlen (version s2)"
        and t1: "t1 = lo_half s2" and t2: "t2 = hi_half s2" by simp_all
      have vt: "valid_net t1" "valid_net t2" "version t1 = v" "version t2 = v"
        using "1.prems"(3,5) lt by (simp_all add: t1 t2 valid_lo_half valid_hi_half)
      have "\<forall>p\<in>set rest. valid_net p \<and> version p = v \<and> addrs p \<subseteq> addrs t1 \<union> addrs t2"
        by (rule "1.IH"(2) [OF ne f refl in2 refl t refl r vt])
      then show ?thesis
        using "1.prems"(2,3,4) addrs_halves(1) [OF "1.prems"(3) lt]
        unfolding p t1 t2 by auto
    qed
  qed
qed

lemma exclude_loop_correct:
  assumes "valid_net n" "valid_net other" "version other = version n"
    "addrs other \<subseteq> addrs n" "other \<noteq> n"
  shows "\<exists>parts. exclude_loop (lo_half n) (hi_half n) other = Inr parts \<and>
           disjoint_blocks parts \<and> covered parts = addrs n - addrs other"
  using assms
proof (induction "room n" arbitrary: n rule: less_induct)
  case less
  note halves = strict_subnet_in_half [OF less.prems]
  note lt = halves(1)
  let ?l = "lo_half n" and ?h = "hi_half n"
  have vl: "valid_net ?l" and vh: "valid_net ?h"
    using less.prems(1) lt by (simp_all add: valid_lo_half valid_hi_half)
  note un = addrs_halves [OF less.prems(1) lt]
  have sl: "subnet_of other ?l = Inr (addrs other \<subseteq> addrs ?l)"
    and sh: "subnet_of other ?h = Inr (addrs other \<subseteq> addrs ?h)"
    using less.prems(2,3) vl vh by (simp_all add: subnet_of_addrs)
  have ne: "network_address other \<in> addrs other"
    using less.prems(2) by (rule addrs_nonempty)
  show ?case
  proof (cases "?l = other \<or> ?h = other")
    case True
    then show ?thesis
      using un by (auto simp: exclude_loop_unfold_eq disjoint_blocks_Cons)
  next
    case False
    show ?thesis
    proof (cases "addrs other \<subseteq> addrs ?l")
      case inl: True
      have "0 < room n" using lt by (simp add: room_def)
      then have "room ?l < room n" by (simp add: room_halves(1) [OF lt])
      from less.hyps [OF this vl less.prems(2) _ inl] less.prems(3) False
      obtain rest where r: "exclude_loop (lo_half ?l) (hi_half ?l) other = Inr rest"
        and d: "disjoint_blocks rest" and c: "covered rest = addrs ?l - addrs other"
        by auto
      have vo: "version other = version ?l" using less.prems(3) by simp
      have nel: "other \<noteq> ?l" using False by auto
      have t: "two_subnets ?l = Inr (lo_half ?l, hi_half ?l)"
        by (rule two_subnets_valid [OF vl strict_subnet_in_half(1) [OF vl less.prems(2) vo inl nel]])
      have "exclude_loop ?l ?h other = Inr (?h # rest)"
        using False sl inl t r by (simp add: exclude_loop_unfold_ne)
      moreover have "disjoint_blocks (?h # rest)"
        unfolding disjoint_blocks_Cons using d c un by auto
      moreover have "covered (?h # rest) = addrs n - addrs other"
        using c un inl by auto
      ultimately show ?thesis by blast
    next
      case ninl: False
      with halves(2) have inh: "addrs other \<subseteq> addrs ?h" by simp
      have "0 < room n" using lt by (simp add: room_def)
      then have "room ?h < room n" by (simp add: room_halves(2) [OF lt])
      from less.hyps [OF this vh less.prems(2) _ inh] less.prems(3) False
      obtain rest where r: "exclude_loop (lo_half ?h) (hi_half ?h) other = Inr rest"
        and d: "disjoint_blocks rest" and c: "covered rest = addrs ?h - addrs other"
        by auto
      have vo: "version other = version ?h" using less.prems(3) by simp
      have neh: "other \<noteq> ?h" using False by auto
      have t: "two_subnets ?h = Inr (lo_half ?h, hi_half ?h)"
        by (rule two_subnets_valid [OF vh strict_subnet_in_half(1) [OF vh less.prems(2) vo inh neh]])
      have "exclude_loop ?l ?h other = Inr (?l # rest)"
        using False sl sh ninl inh t r by (simp add: exclude_loop_unfold_ne)
      moreover have "disjoint_blocks (?l # rest)"
        unfolding disjoint_blocks_Cons using d c un by auto
      moreover have "covered (?l # rest) = addrs n - addrs other"
        using c un inh by auto
      ultimately show ?thesis by blast
    qed
  qed
qed

lemma address_exclude_parts:
  assumes "address_exclude a u = Inr parts" "valid_net a"
  shows "\<forall>p\<in>set parts. valid_net p \<and> version p = version a \<and> addrs p \<subseteq> addrs a"
proof (cases "u = a")
  case True
  with assms(1) have "parts = []"
    by (auto simp: address_exclude_def split: if_splits sum.splits bool.splits)
  then show ?thesis by simp
next
  case False
  with assms(1) obtain s1 s2 where t: "two_subnets a = Inr (s1, s2)"
    and l: "exclude_loop s1 s2 u = Inr parts"
    by (auto simp: address_exclude_def split: if_splits sum.splits bool.splits)
  from two_subnets_Inr [OF assms(2) t]
  have lt: "prefixlen a < max_prefixlen (version a)"
    and s: "s1 = lo_half a" "s2 = hi_half a" by simp_all
  have "valid_net s1" "valid_net s2" "version s1 = version a" "version s2 = version a"
    using assms(2) lt by (simp_all add: s valid_lo_half valid_hi_half)
  from exclude_loop_parts [OF l this] addrs_halves(1) [OF assms(2) lt]
  show ?thesis by (simp add: s)
qed

lemma address_exclude_correct:
  assumes "valid_net a" "valid_net u" "version u = version a" "addrs u \<subseteq> addrs a"
  shows "\<exists>parts. address_exclude a u = Inr parts \<and> disjoint_blocks parts \<and>
           covered parts = addrs a - addrs u"
proof -
  have s: "subnet_of u a = Inr True"
    using assms by (simp add: subnet_of_addrs)
  show ?thesis
  proof (cases "u = a")
    case True
    then show ?thesis using s by (simp add: address_exclude_def)
  next
    case False
    have t: "two_subnets a = Inr (lo_half a, hi_half a)"
      by (rule two_subnets_valid [OF assms(1) strict_subnet_in_half(1) [OF assms False]])
    from exclude_loop_correct [OF assms False] show ?thesis
      using False s t assms(3) by (simp add: address_exclude_def)
  qed
qed

lemma exclude_one_parts:
  assumes "exclude_one u av = Inr av'" "\<forall>a\<in>set av. valid_net a \<and> version a = v"
  shows "\<forall>a'\<in>set av'. valid_net a' \<and> version a' = v \<and> (\<exists>a\<in>set av. addrs a' \<subseteq> addrs a)"
  using assms
proof (induction av arbitrary: av')
  case Nil
  then show ?case by simp
next
  case (Cons a as)
  from Cons.prems(1) obtain rest where r: "exclude_one u as = Inr rest"
    by (auto split: sum.splits bool.splits)
  have ih: "\<forall>a'\<in>set rest. valid_net a' \<and> version a' = v \<and> (\<exists>a\<in>set as. addrs a' \<subseteq> addrs a)"
    using Cons.IH [OF r] Cons.prems(2) by simp
  have va: "valid_net a" "version a = v" using Cons.prems(2) by simp_all
  show ?case
  proof (cases "subnet_of u a = Inr True")
    case True
    with Cons.prems(1) r obtain parts where p: "address_exclude a u = Inr parts"
      and e: "av' = parts @ rest"
      by (auto split: sum.splits)
    note ap = address_exclude_parts [OF p va(1)]
    show ?thesis unfolding e
    proof
      fix a' assume "a' \<in> set (parts @ rest)"
      then consider "a' \<in> set parts" | "a' \<in> set rest" by auto
      then show "valid_net a' \<and> version a' = v \<and> (\<exists>b\<in>set (a # as). addrs a' \<subseteq> addrs b)"
      proof cases
        case 1
        with ap va(2) have "valid_net a'" "version a' = v" "addrs a' \<subseteq> addrs a" by simp_all
        then show ?thesis by simp
      next
        case 2
        with ih have "valid_net a'" "version a' = v" "\<exists>b\<in>set as. addrs a' \<subseteq> addrs b"
          by simp_all
        then show ?thesis by simp
      qed
    qed
  next
    case False
    with Cons.prems(1) r have e: "av' = a # rest"
      by (auto split: sum.splits bool.splits)
    show ?thesis unfolding e
    proof
      fix a' assume "a' \<in> set (a # rest)"
      then consider "a' = a" | "a' \<in> set rest" by auto
      then show "valid_net a' \<and> version a' = v \<and> (\<exists>b\<in>set (a # as). addrs a' \<subseteq> addrs b)"
      proof cases
        case 1
        with va show ?thesis by simp
      next
        case 2
        with ih have "valid_net a'" "version a' = v" "\<exists>b\<in>set as. addrs a' \<subseteq> addrs b"
          by simp_all
        then show ?thesis by simp
      qed
    qed
  qed
qed

lemma exclude_one_skip:
  "\<forall>a\<in>set av. subnet_of u a = Inr False \<Longrightarrow> exclude_one u av = Inr av"
  by (induction av) simp_all

lemma exclude_one_correct:
  assumes "valid_net u" "\<forall>a\<in>set av. valid_net a \<and> version a = version u"
  shows "\<exists>av'. exclude_one u av = Inr av' \<and> (\<forall>a'\<in>set av'. \<not> addrs u \<subseteq> addrs a') \<and>
     (disjoint_blocks av \<longrightarrow> disjoint_blocks av' \<and>
        covered av' = covered av - (if \<exists>a\<in>set av. addrs u \<subseteq> addrs a then addrs u else {}))"
  using assms(2)
proof (induction av)
  case Nil
  show ?case by simp
next
  case (Cons a as)
  have "\<forall>a\<in>set as. valid_net a \<and> version a = version u"
    using Cons.prems by simp
  from Cons.IH [OF this] obtain rest where r: "exclude_one u as = Inr rest"
    and nr: "\<forall>a'\<in>set rest. \<not> addrs u \<subseteq> addrs a'"
    and dr: "disjoint_blocks as \<longrightarrow> disjoint_blocks rest \<and>
        covered rest = covered as - (if \<exists>a\<in>set as. addrs u \<subseteq> addrs a then addrs u else {})"
    by blast
  have va: "valid_net a" and ver: "version u = version a" using Cons.prems by simp_all
  have s: "subnet_of u a = Inr (addrs u \<subseteq> addrs a)"
    using assms(1) va ver by (rule subnet_of_addrs)
  have ne: "network_address u \<in> addrs u" using assms(1) by (rule addrs_nonempty)
  show ?case
  proof (cases "addrs u \<subseteq> addrs a")
    case True
    from address_exclude_correct [OF va assms(1) ver True] obtain parts
      where p: "address_exclude a u = Inr parts" and dp: "disjoint_blocks parts"
        and cp: "covered parts = addrs a - addrs u" by blast
    have e: "exclude_one u (a # as) = Inr (parts @ rest)"
      using s True p r by simp
    have "\<forall>a'\<in>set parts. \<not> addrs u \<subseteq> addrs a'"
    proof
      fix a' assume "a' \<in> set parts"
      then have "addrs a' \<subseteq> covered parts" by (auto simp: covered_def)
      with cp ne show "\<not> addrs u \<subseteq> addrs a'" by auto
    qed
    with nr have n: "\<forall>a'\<in>set (parts @ rest). \<not> addrs u \<subseteq> addrs a'" by auto
    have "disjoint_blocks (parts @ rest) \<and> covered (parts @ rest) = covered (a # as) - addrs u"
      if d: "disjoint_blocks (a # as)"
    proof -
      from d have da: "addrs a \<inter> covered as = {}" and das: "disjoint_blocks as"
        by (simp_all add: disjoint_blocks_Cons del: disjoint_blocks.simps)
      have "\<not> (\<exists>b\<in>set as. addrs u \<subseteq> addrs b)"
      proof
        assume "\<exists>b\<in>set as. addrs u \<subseteq> addrs b"
        then have "network_address u \<in> covered as" using ne by (auto simp: covered_def)
        with da True ne show False by auto
      qed
      with dr das have cr: "covered rest = covered as" and dr': "disjoint_blocks rest"
        by simp_all
      show ?thesis
        unfolding disjoint_blocks_append using dp dr' cp cr da True by auto
    qed
    with e n True show ?thesis by auto
  next
    case False
    have e: "exclude_one u (a # as) = Inr (a # rest)"
      using s False r by simp
    have n: "\<forall>a'\<in>set (a # rest). \<not> addrs u \<subseteq> addrs a'" using nr False by simp
    have "disjoint_blocks (a # rest) \<and> covered (a # rest) =
        covered (a # as) - (if \<exists>b\<in>set as. addrs u \<subseteq> addrs b then addrs u else {})"
      if d: "disjoint_blocks (a # as)"
    proof -
      from d have da: "addrs a \<inter> covered as = {}" and das: "disjoint_blocks as"
        by (simp_all add: disjoint_blocks_Cons del: disjoint_blocks.simps)
      from dr das have cr: "covered rest =
          covered as - (if \<exists>a\<in>set as. addrs u \<subseteq> addrs a then addrs u else {})"
        and dr': "disjoint_blocks rest" by simp_all
      have "addrs a \<inter> addrs u = {}" if "\<exists>b\<in>set as. addrs u \<subseteq> addrs b"
        using that da by (auto simp: covered_def)
      then show ?thesis
        unfolding disjoint_blocks_Cons using dr' cr da by auto
    qed
    with e n False show ?thesis by auto
  qed
qed

section \<open>Properties of the exclusion engine\<close>

lemma exclude_all_append:
  "exclude_all (xs @ ys) av =
     (case exclude_all xs av of Inl e \<Rightarrow> Inl e | Inr av' \<Rightarrow> exclude_all ys av')"
  by (induction xs arbitrary: av) (simp_all split: sum.splits)

lemma exclude_all_parts:
  assumes "exclude_all us av = Inr fs" "\<forall>a\<in>set av. valid_net a \<and> version a = v"
  shows "\<forall>f\<in>set fs. valid_net f \<and> version f = v \<and> (\<exists>a\<in>set av. addrs f \<subseteq> addrs a)"
  using assms
proof (induction us arbitrary: av)
  case Nil
  then show ?case by auto
next
  case (Cons u us)
  from Cons.prems(1) obtain av' where s: "exclude_one u av = Inr av'"
    and r: "exclude_all us av' = Inr fs"
    by (auto split: sum.splits)
  note p = exclude_one_parts [OF s Cons.prems(2)]
  then have "\<forall>a\<in>set av'. valid_net a \<and> version a = v" by blast
  note ih = Cons.IH [OF r this]
  show ?case
  proof
    fix f assume f: "f \<in> set fs"
    with ih obtain a' where "a' \<in> set av'" "addrs f \<subseteq> addrs a'" by blast
    moreover from this p obtain a where "a \<in> set av" "addrs a' \<subseteq> addrs a" by blast
    ultimately have "\<exists>a\<in>set av. addrs f \<subseteq> addrs a" by blast
    with ih f show "valid_net f \<and> version f = v \<and> (\<exists>a\<in>set av. addrs f \<subseteq> addrs a)"
      by blast
  qed
qed

lemma exclude_all_total:
  assumes "\<forall>a\<in>set av. valid_net a \<and> version a = v" "\<forall>u\<in>set us. valid_net u \<and> version u = v"
  shows "\<exists>fs. exclude_all us av = Inr fs"
  using assms
proof (induction us arbitrary: av)
  case Nil
  show ?case by simp
next
  case (Cons u us)
  have u: "valid_net u" "version u = v" using Cons.prems(2) by simp_all
  have "\<forall>a\<in>set av. valid_net a \<and> version a = version u"
    using Cons.prems(1) u(2) by simp
  from exclude_one_correct [OF u(1) this]
  obtain av' where s: "exclude_one u av = Inr av'" by blast
  from exclude_one_parts [OF s Cons.prems(1)]
  have "\<forall>a\<in>set av'. valid_net a \<and> version a = v" by blast
  from Cons.IH [OF this] Cons.prems(2) s show ?case by simp
qed

lemma sort_used_same_version:
  assumes "\<forall>u\<in>set ns. version u = v"
  shows "sort_used ns = Inr (sort_key (\<lambda>n. (network_address n, prefixlen n)) ns)"
proof -
  have "\<not> (\<exists>a\<in>set ns. \<exists>b\<in>set ns. version a \<noteq> version b)"
    using assms by metis
  then show ?thesis unfolding sort_used_def by (simp only: if_False)
qed

lemma sort_used_Inr:
  assumes "sort_used ns = Inr s"
  shows "\<forall>a\<in>set ns. \<forall>b\<in>set ns. version a = version b"
    and "s = sort_key (\<lambda>n. (network_address n, prefixlen n)) ns"
proof -
  have n: "\<not> (\<exists>a\<in>set ns. \<exists>b\<in>set ns. version a \<noteq> version b)"
  proof
    assume "\<exists>a\<in>set ns. \<exists>b\<in>set ns. version a \<noteq> version b"
    then have "sort_used ns = Inl TypeError" unfolding sort_used_def by (simp only: if_True)
    with assms show False by simp
  qed
  then show "\<forall>a\<in>set ns. \<forall>b\<in>set ns. version a = version b" by blast
  from n have "sort_used ns = Inr (sort_key (\<lambda>n. (network_address n, prefixlen n)) ns)"
    unfolding sort_used_def by (simp only: if_False)
  with assms show "s = sort_key (\<lambda>n. (network_address n, prefixlen n)) ns" by simp
qed

lemma sort_used_mixed:
  assumes "a \<in> set ns" "b \<in> set ns" "version a \<noteq> version b"
  shows "sort_used ns = Inl TypeError"
proof -
  have "\<exists>a\<in>set ns. \<exists>b\<in>set ns. version a \<noteq> version b" using assms by blast
  then show ?thesis unfolding sort_used_def by (simp only: if_True)
qed

definition used_key :: "net \<Rightarrow> nat \<times> nat" where
  "used_key n = (network_address n, prefixlen n)"

lemma sort_key_unique:
  fixes k :: "'a \<Rightarrow> 'b::linorder"
  assumes "inj_on k (set xs)" "mset zs = mset xs" "sorted (map k zs)"
  shows "sort_key k xs = zs"
proof -
  have "sort (map k xs) = map k (sort_key k xs)"
    by (rule properties_for_sort) simp_all
  moreover have "sort (map k xs) = map k zs"
    by (rule properties_for_sort) (simp_all add: assms)
  ultimately have "map k (sort_key k xs) = map k zs" by simp
  moreover have "set zs = set xs" using assms(2) by (rule mset_eq_setD)
  ultimately show ?thesis
    using assms(1) by (simp add: inj_on_map_eq_map)
qed

lemma key_inj_same_version:
  fixes ns :: "net list"
  assumes "\<forall>a\<in>set ns. \<forall>b\<in>set ns. version a = version b"
  shows "inj_on (\<lambda>n. (network_address n, prefixlen n)) (set ns)"
proof (rule inj_onI)
  fix a b :: net
  assume ab: "a \<in> set ns" "b \<in> set ns"
    and eq: "(network_address a, prefixlen a) = (network_address b, prefixlen b)"
  from assms ab have "version a = version b" by blast
  moreover from eq have "network_address a = network_address b" "prefixlen a = prefixlen b"
    by simp_all
  ultimately show "a = b" by (simp add: net.equality)
qed

text \<open>
  C9. The result depends only on the occupied blocks supplied, not on their order: two
  inputs that are permutations of each other give the same outcome, the same list of free
  blocks in the same order (or the same exception).
\<close>

theorem find_unused_subnets_permutation:
  assumes "mset used' = mset used"
  shows "find_unused_subnets parent used' = find_unused_subnets parent used"
proof -
  have s: "set used' = set used" using assms by (rule mset_eq_setD)
  have "sort_used used' = sort_used used"
  proof (cases "\<exists>a\<in>set used. \<exists>b\<in>set used. version a \<noteq> version b")
    case True
    then show ?thesis unfolding sort_used_def s by (simp only: if_True)
  next
    case False
    then have sv: "\<forall>a\<in>set used. \<forall>b\<in>set used. version a = version b" by blast
    have "sort_key (\<lambda>n. (network_address n, prefixlen n)) used =
        sort_key (\<lambda>n. (network_address n, prefixlen n)) used'"
      by (rule sort_key_unique [OF key_inj_same_version [OF sv]]) (simp_all add: assms)
    with False show ?thesis unfolding sort_used_def s by (simp only: if_False)
  qed
  then show ?thesis by (simp only: find_unused_subnets_def)
qed

lemma find_unused_subnets_parts:
  assumes "valid_net parent" "find_unused_subnets parent used = Inr free"
  shows "\<forall>f\<in>set free. valid_net f \<and> version f = version parent \<and> addrs f \<subseteq> addrs parent"
proof -
  from assms(2) obtain s where "exclude_all s [parent] = Inr free"
    by (auto simp: find_unused_subnets_def split: sum.splits)
  from exclude_all_parts [OF this, of "version parent"] assms(1)
  show ?thesis by simp
qed

text \<open>
  C4. Every block returned is a validly aligned block of its address family: its prefix
  length is within the address width, its network address is a multiple of its block size
  \<open>2 ^ (width - prefix length)\<close> and it has no host bits set.
\<close>

theorem find_unused_subnets_aligned:
  assumes "valid_net parent" "find_unused_subnets parent used = Inr free" "f \<in> set free"
  shows "prefixlen f \<le> max_prefixlen (version f) \<and>
         2 ^ (max_prefixlen (version f) - prefixlen f) dvd network_address f \<and>
         network_address f AND hostmask f = 0"
proof -
  from find_unused_subnets_parts [OF assms(1,2)] assms(3) have v: "valid_net f" by blast
  then show ?thesis
    using v [unfolded valid_net_dvd] by (simp add: valid_net_def room_def)
qed

lemma find_unused_subnets_total:
  assumes "valid_net parent" "\<forall>u\<in>set used. valid_net u \<and> version u = version parent"
  shows "\<exists>free. find_unused_subnets parent used = Inr free"
proof -
  let ?s = "sort_key (\<lambda>n. (network_address n, prefixlen n)) used"
  have "\<forall>u\<in>set used. version u = version parent" using assms(2) by blast
  then have s: "sort_used used = Inr ?s" by (rule sort_used_same_version)
  have "\<forall>a\<in>set [parent]. valid_net a \<and> version a = version parent"
    using assms(1) by simp
  moreover have "\<forall>u\<in>set ?s. valid_net u \<and> version u = version parent"
    using assms(2) by simp
  ultimately obtain fs where "exclude_all ?s [parent] = Inr fs"
    using exclude_all_total by blast
  with s show ?thesis by (simp add: find_unused_subnets_def)
qed

lemma exclude_all_take_total:
  assumes "valid_net parent" "\<forall>u\<in>set s. valid_net u \<and> version u = version parent"
  shows "\<exists>av. exclude_all (take k s) [parent] = Inr av \<and>
           (\<forall>a\<in>set av. valid_net a \<and> version a = version parent \<and> addrs a \<subseteq> addrs parent)"
proof -
  have p: "\<forall>a\<in>set [parent]. valid_net a \<and> version a = version parent"
    using assms(1) by simp
  have "\<forall>u\<in>set (take k s). valid_net u \<and> version u = version parent"
    using assms(2) by (meson in_set_takeD)
  from exclude_all_total [OF p this] obtain av where
    av: "exclude_all (take k s) [parent] = Inr av" by blast
  from exclude_all_parts [OF av p] have
    "\<forall>a\<in>set av. valid_net a \<and> version a = version parent \<and> addrs a \<subseteq> addrs parent"
    by simp
  with av show ?thesis by blast
qed

text \<open>
  C10. For occupied blocks of the parent's address family, whatever their overlaps or
  duplicates, the run returns, and every block of the working set after any number of
  occupied blocks, hence every block returned, is a subnet of the parent.
\<close>

theorem find_unused_subnets_within_parent:
  assumes "valid_net parent" "\<forall>u\<in>set used. valid_net u \<and> version u = version parent"
  shows "\<exists>sorted free.
           sort_used used = Inr sorted \<and>
           (\<forall>k\<le>length sorted. \<exists>available.
               exclude_all (take k sorted) [parent] = Inr available \<and>
               (\<forall>a\<in>set available. subnet_of a parent = Inr True)) \<and>
           find_unused_subnets parent used = Inr free \<and>
           (\<forall>f\<in>set free. subnet_of f parent = Inr True)"
proof -
  let ?s = "sort_key (\<lambda>n. (network_address n, prefixlen n)) used"
  have "\<forall>u\<in>set used. version u = version parent" using assms(2) by blast
  then have s: "sort_used used = Inr ?s" by (rule sort_used_same_version)
  have vs: "\<forall>u\<in>set ?s. valid_net u \<and> version u = version parent"
    using assms(2) by simp
  have sub: "subnet_of a parent = Inr True"
    if "valid_net a \<and> version a = version parent \<and> addrs a \<subseteq> addrs parent" for a
    using that assms(1) by (simp add: subnet_of_addrs)
  have stage: "\<exists>available. exclude_all (take k ?s) [parent] = Inr available \<and>
               (\<forall>a\<in>set available. subnet_of a parent = Inr True)" for k
    using exclude_all_take_total [OF assms(1) vs, of k] sub by blast
  from stage [of "length ?s"] obtain free where
    f: "exclude_all ?s [parent] = Inr free" "\<forall>f\<in>set free. subnet_of f parent = Inr True"
    by auto
  have "find_unused_subnets parent used = Inr free"
    using s f(1) by (simp add: find_unused_subnets_def)
  with s stage f(2) show ?thesis by blast
qed

text \<open>
  C2, as amended. For occupied blocks of the parent's address family the run never
  fails, and an occupied block that is contained in no block of the working set at the
  moment it is processed is skipped: the working set is the same after it.
\<close>

theorem find_unused_subnets_skip:
  assumes "valid_net parent" "\<forall>u\<in>set used. valid_net u \<and> version u = version parent"
  shows "\<exists>sorted free.
           sort_used used = Inr sorted \<and>
           find_unused_subnets parent used = Inr free \<and>
           (\<forall>k<length sorted. \<exists>available.
               exclude_all (take k sorted) [parent] = Inr available \<and>
               ((\<forall>a\<in>set available. \<not> addrs (sorted ! k) \<subseteq> addrs a) \<longrightarrow>
                  exclude_one (sorted ! k) available = Inr available \<and>
                  exclude_all (take (Suc k) sorted) [parent] = Inr available))"
proof -
  let ?s = "sort_key (\<lambda>n. (network_address n, prefixlen n)) used"
  have "\<forall>u\<in>set used. version u = version parent" using assms(2) by blast
  then have s: "sort_used used = Inr ?s" by (rule sort_used_same_version)
  have vs: "\<forall>u\<in>set ?s. valid_net u \<and> version u = version parent"
    using assms(2) by simp
  from find_unused_subnets_total [OF assms] obtain free where
    f: "find_unused_subnets parent used = Inr free" by blast
  have "\<exists>available.
          exclude_all (take k ?s) [parent] = Inr available \<and>
          ((\<forall>a\<in>set available. \<not> addrs (?s ! k) \<subseteq> addrs a) \<longrightarrow>
             exclude_one (?s ! k) available = Inr available \<and>
             exclude_all (take (Suc k) ?s) [parent] = Inr available)"
    if k: "k < length ?s" for k
  proof -
    from exclude_all_take_total [OF assms(1) vs, of k] obtain av where
      av: "exclude_all (take k ?s) [parent] = Inr av"
      and v: "\<forall>a\<in>set av. valid_net a \<and> version a = version parent \<and> addrs a \<subseteq> addrs parent"
      by blast
    have u: "valid_net (?s ! k)" "version (?s ! k) = version parent"
      using vs k by (meson nth_mem)+
    have "exclude_one (?s ! k) av = Inr av \<and> exclude_all (take (Suc k) ?s) [parent] = Inr av"
      if n: "\<forall>a\<in>set av. \<not> addrs (?s ! k) \<subseteq> addrs a"
    proof -
      have "\<forall>a\<in>set av. subnet_of (?s ! k) a = Inr False"
        using n v u by (simp add: subnet_of_addrs)
      then have one: "exclude_one (?s ! k) av = Inr av" by (rule exclude_one_skip)
      have "take (Suc k) ?s = take k ?s @ [?s ! k]"
        using k by (rule take_Suc_conv_app_nth)
      then have "exclude_all (take (Suc k) ?s) [parent] = Inr av"
        using av one by (simp add: exclude_all_append)
      with one show ?thesis by simp
    qed
    with av show ?thesis by blast
  qed
  with s f show ?thesis by blast
qed

lemma exclude_one_Inr_version:
  assumes "exclude_one u av = Inr av'" "a \<in> set av"
  shows "version u = version a"
  using assms
proof (induction av arbitrary: av')
  case Nil
  then show ?case by simp
next
  case (Cons b bs)
  from Cons.prems(1) obtain rest where r: "exclude_one u bs = Inr rest"
    by (auto split: sum.splits bool.splits)
  have "version u = version b"
  proof (rule ccontr)
    assume "version u \<noteq> version b"
    then have "subnet_of u b = Inl TypeError" by (simp add: subnet_of_def)
    with Cons.prems(1) show False by simp
  qed
  with Cons.IH [OF r] Cons.prems(2) show ?case by auto
qed

lemma exclude_one_twice:
  assumes "valid_net u" "\<forall>a\<in>set av. valid_net a" "exclude_one u av = Inr av'"
  shows "exclude_one u av' = Inr av'"
proof -
  have v: "\<forall>a\<in>set av. valid_net a \<and> version a = version u"
    using assms(2) exclude_one_Inr_version [OF assms(3)] by metis
  from exclude_one_correct [OF assms(1) v] assms(3)
  have n: "\<forall>a'\<in>set av'. \<not> addrs u \<subseteq> addrs a'" by auto
  from exclude_one_parts [OF assms(3) v]
  have "\<forall>a'\<in>set av'. valid_net a' \<and> version a' = version u" by blast
  with n assms(1) have "\<forall>a'\<in>set av'. subnet_of u a' = Inr False"
    by (simp add: subnet_of_addrs)
  then show ?thesis by (rule exclude_one_skip)
qed

lemma exclude_all_duplicate:
  assumes "valid_net u" "\<forall>a\<in>set av. valid_net a"
  shows "exclude_all (u # u # zs) av = exclude_all (u # zs) av"
proof (cases "exclude_one u av")
  case (Inl e)
  then show ?thesis by simp
next
  case (Inr av')
  from exclude_one_twice [OF assms Inr] Inr show ?thesis by simp
qed

lemma exclude_all_valid:
  assumes "exclude_all us av = Inr fs" "\<forall>a\<in>set av. valid_net a \<and> version a = v"
  shows "\<forall>f\<in>set fs. valid_net f"
  using exclude_all_parts [OF assms] by blast

text \<open>
  C3. Appending a duplicate of an occupied block that is already in the collection does
  not change the outcome: the same free blocks are returned.
\<close>

theorem find_unused_subnets_idempotent:
  assumes "valid_net parent" "\<forall>c\<in>set used. valid_net c" "u \<in> set used"
  shows "find_unused_subnets parent (used @ [u]) = find_unused_subnets parent used"
proof (cases "\<exists>a\<in>set used. \<exists>b\<in>set used. version a \<noteq> version b")
  case True
  moreover have "set (used @ [u]) = set used" using assms(3) by auto
  ultimately have "sort_used (used @ [u]) = Inl TypeError" "sort_used used = Inl TypeError"
    unfolding sort_used_def by (simp_all only: if_True)
  then show ?thesis by (simp add: find_unused_subnets_def)
next
  case False
  let ?k = "\<lambda>n. (network_address n, prefixlen n)"
  let ?s = "sort_key ?k used"
  from False have sv: "\<forall>a\<in>set used. \<forall>b\<in>set used. version a = version b" by blast
  have su: "set (used @ [u]) = set used" using assms(3) by auto
  from sv have sv': "\<forall>a\<in>set (used @ [u]). \<forall>b\<in>set (used @ [u]). version a = version b"
    unfolding su .
  have "u \<in> set ?s" using assms(3) by simp
  then obtain ys zs where split: "?s = ys @ u # zs" by (meson split_list)
  have "sorted (map ?k ?s)" by (rule sorted_sort_key)
  then have "sorted (map ?k (ys @ u # u # zs))"
    unfolding split by (auto simp: sorted_append)
  moreover have "mset (ys @ u # u # zs) = mset (used @ [u])"
  proof -
    have "mset ?s = mset used" by simp
    then have "mset (ys @ u # zs) = mset used" unfolding split .
    then show ?thesis by simp
  qed
  ultimately have dup: "sort_key ?k (used @ [u]) = ys @ u # u # zs"
    using sort_key_unique [OF key_inj_same_version [OF sv']] by blast
  have s1: "sort_used used = Inr (ys @ u # zs)"
    using False split unfolding sort_used_def by (simp only: if_False)
  have "\<not> (\<exists>a\<in>set (used @ [u]). \<exists>b\<in>set (used @ [u]). version a \<noteq> version b)"
    using False unfolding su .
  then have s2: "sort_used (used @ [u]) = Inr (ys @ u # u # zs)"
    using dup unfolding sort_used_def by (simp only: if_False)
  have vu: "valid_net u" using assms(2,3) by blast
  have "exclude_all (ys @ u # u # zs) [parent] = exclude_all (ys @ u # zs) [parent]"
  proof (cases "exclude_all ys [parent]")
    case (Inl e)
    then show ?thesis by (simp add: exclude_all_append)
  next
    case (Inr av)
    have "\<forall>a\<in>set [parent]. valid_net a \<and> version a = version parent"
      using assms(1) by simp
    from exclude_all_valid [OF Inr this]
    have "exclude_all (u # u # zs) av = exclude_all (u # zs) av"
      by (rule exclude_all_duplicate [OF vu])
    with Inr show ?thesis by (simp only: exclude_all_append sum.case)
  qed
  with s1 s2 show ?thesis by (simp only: find_unused_subnets_def sum.case)
qed

fun contained_run :: "net list \<Rightarrow> net list \<Rightarrow> bool" where
  "contained_run [] available = True"
| "contained_run (u # us) available =
     ((\<exists>a\<in>set available. subnet_of u a = Inr True) \<and>
      (case exclude_one u available of
         Inl e \<Rightarrow> False
       | Inr new_available \<Rightarrow> contained_run us new_available))"

definition each_contained :: "net \<Rightarrow> net list \<Rightarrow> bool" where
  "each_contained parent_cidr used_networks =
     (case sort_used used_networks of
        Inl e \<Rightarrow> False
      | Inr used \<Rightarrow> contained_run used [parent_cidr])"

lemma finite_covered [simp]: "finite (covered xs)"
  by (simp add: covered_def addrs_def)

lemma card_addrs: "valid_net n \<Longrightarrow> card (addrs n) = num_addresses n"
  by (simp add: addrs_valid num_addresses_valid)

lemma sum_list_num_addresses:
  assumes "\<forall>x\<in>set xs. valid_net x" "disjoint_blocks xs"
  shows "sum_list (map num_addresses xs) = card (covered xs)"
  using assms
proof (induction xs)
  case Nil
  show ?case by simp
next
  case (Cons x xs)
  from Cons.prems(2) have d: "addrs x \<inter> covered xs = {}" and ds: "disjoint_blocks xs"
    by (simp_all add: disjoint_blocks_Cons del: disjoint_blocks.simps)
  have "card (addrs x \<union> covered xs) = card (addrs x) + card (covered xs)"
    using d by (intro card_Un_disjoint) (simp_all add: addrs_def)
  with Cons.IH [OF _ ds] Cons.prems(1) show ?case
    by (simp add: card_addrs)
qed

lemma disjoint_blocks_pairwise:
  assumes "disjoint_blocks xs" "x \<in> set xs" "y \<in> set xs" "x \<noteq> y"
  shows "addrs x \<inter> addrs y = {}"
  using assms by (induction xs) auto

lemma disjoint_blocks_distinct:
  assumes "disjoint_blocks xs" "\<forall>x\<in>set xs. valid_net x"
  shows "distinct xs"
  using assms
proof (induction xs)
  case Nil
  show ?case by simp
next
  case (Cons x xs)
  have "network_address x \<in> addrs x" using Cons.prems(2) by (simp add: addrs_nonempty)
  then have "x \<notin> set xs" using Cons.prems(1) by auto
  with Cons show ?case by simp
qed

lemma contained_run_correct:
  assumes "\<forall>a\<in>set av. valid_net a \<and> version a = v" "disjoint_blocks av"
    "\<forall>u\<in>set us. valid_net u" "contained_run us av"
  shows "\<exists>fs. exclude_all us av = Inr fs \<and> disjoint_blocks fs \<and>
           covered fs = covered av - covered us \<and> covered us \<subseteq> covered av \<and>
           disjoint_blocks us"
  using assms
proof (induction us arbitrary: av)
  case Nil
  then show ?case by simp
next
  case (Cons u us)
  have vu: "valid_net u" using Cons.prems(3) by simp
  from Cons.prems(4) obtain a where a: "a \<in> set av" "subnet_of u a = Inr True"
    by auto
  have ver: "version u = v"
  proof (rule ccontr)
    assume "version u \<noteq> v"
    with a(1) Cons.prems(1) have "subnet_of u a = Inl TypeError" by (simp add: subnet_of_def)
    with a(2) show False by simp
  qed
  have v': "\<forall>a\<in>set av. valid_net a \<and> version a = version u"
    using Cons.prems(1) ver by simp
  have ua: "addrs u \<subseteq> addrs a"
    using a vu v' by (simp add: subnet_of_addrs)
  from exclude_one_correct [OF vu v'] Cons.prems(2) obtain av' where
    one: "exclude_one u av = Inr av'" and d': "disjoint_blocks av'"
    and c': "covered av' = covered av -
       (if \<exists>a\<in>set av. addrs u \<subseteq> addrs a then addrs u else {})"
    by blast
  have "\<exists>a\<in>set av. addrs u \<subseteq> addrs a" using a(1) ua by blast
  with c' have c: "covered av' = covered av - addrs u"
    by (simp only: if_True)
  have va': "\<forall>a\<in>set av'. valid_net a \<and> version a = v"
    using exclude_one_parts [OF one Cons.prems(1)] by blast
  have run: "contained_run us av'" using Cons.prems(4) one by simp
  have vus: "\<forall>u\<in>set us. valid_net u" using Cons.prems(3) by simp
  from Cons.IH [OF va' d' vus run] obtain fs where
    fs: "exclude_all us av' = Inr fs" "disjoint_blocks fs"
      "covered fs = covered av' - covered us" "covered us \<subseteq> covered av'"
      "disjoint_blocks us" by blast
  have "addrs a \<subseteq> covered av" using a(1) by (auto simp: covered_def)
  with ua have uc: "addrs u \<subseteq> covered av" by blast
  have "exclude_all (u # us) av = Inr fs" using one fs(1) by simp
  moreover have "covered fs = covered av - covered (u # us)"
    using fs(3) c by auto
  moreover have "covered (u # us) \<subseteq> covered av"
    using fs(4) c uc by auto
  moreover have "disjoint_blocks (u # us)"
    unfolding disjoint_blocks_Cons using fs(4,5) c by auto
  ultimately show ?case using fs(2) by blast
qed

text \<open>
  C1. When every occupied block is, at the moment it is processed in sorted order,
  contained in a block of the working set, the run returns free blocks that are pairwise
  disjoint and disjoint from the occupied blocks; the occupied blocks are pairwise
  disjoint; free and occupied blocks together cover exactly the parent; and the sizes of
  the free blocks plus the sizes of the distinct occupied blocks add up to the size of the
  parent.
\<close>

theorem find_unused_subnets_exact_cover:
  assumes "valid_net parent" "\<forall>u\<in>set used. valid_net u" "each_contained parent used"
  shows "\<exists>free. find_unused_subnets parent used = Inr free \<and>
           disjoint_blocks free \<and>
           (\<forall>u\<in>set used. \<forall>w\<in>set used. u \<noteq> w \<longrightarrow> addrs u \<inter> addrs w = {}) \<and>
           covered free \<inter> covered used = {} \<and>
           covered free \<union> covered used = addrs parent \<and>
           (\<Sum>f\<leftarrow>free. num_addresses f) + (\<Sum>u\<in>set used. num_addresses u)
             = num_addresses parent"
proof -
  from assms(3) obtain s where s: "sort_used used = Inr s" and run: "contained_run s [parent]"
    by (auto simp: each_contained_def split: sum.splits)
  from sort_used_Inr(2) [OF s] have set_s: "set s = set used" by simp
  have vs: "\<forall>u\<in>set s. valid_net u" using assms(2) set_s by simp
  have p: "\<forall>a\<in>set [parent]. valid_net a \<and> version a = version parent"
    using assms(1) by simp
  have dp: "disjoint_blocks [parent]" by simp
  from contained_run_correct [OF p dp vs run] obtain free where
    f: "exclude_all s [parent] = Inr free" and df: "disjoint_blocks free"
    and cf: "covered free = covered [parent] - covered s"
    and cs: "covered s \<subseteq> covered [parent]" and ds: "disjoint_blocks s"
    by blast
  have cu: "covered s = covered used" by (simp add: covered_def set_s)
  have vf: "\<forall>f\<in>set free. valid_net f" using exclude_all_valid [OF f p] .
  have res: "find_unused_subnets parent used = Inr free"
    using s f by (simp add: find_unused_subnets_def)
  have pw: "\<forall>u\<in>set used. \<forall>w\<in>set used. u \<noteq> w \<longrightarrow> addrs u \<inter> addrs w = {}"
    using disjoint_blocks_pairwise [OF ds] set_s by blast
  have i: "covered free \<inter> covered used = {}" using cf cu by auto
  have un: "covered free \<union> covered used = addrs parent" using cf cs cu by auto
  have "distinct s" using ds vs by (rule disjoint_blocks_distinct)
  then have "(\<Sum>u\<leftarrow>s. num_addresses u) = (\<Sum>u\<in>set s. num_addresses u)"
    by (rule sum_list_distinct_conv_sum_set)
  then have su: "(\<Sum>u\<in>set used. num_addresses u) = card (covered used)"
    using sum_list_num_addresses [OF vs ds] set_s cu by simp
  have "card (covered free \<union> covered used) = card (covered free) + card (covered used)"
    using i by (intro card_Un_disjoint) simp_all
  then have "(\<Sum>f\<leftarrow>free. num_addresses f) + (\<Sum>u\<in>set used. num_addresses u)
      = num_addresses parent"
    using sum_list_num_addresses [OF vf df] su un card_addrs [OF assms(1)] by simp
  with res df pw i un show ?thesis by blast
qed

section \<open>The aggregator: \<^verbatim>\<open>get_pie_data\<close>\<close>

text \<open>
  A row of the report is a dict with the columns below. The column \<^verbatim>\<open>CIDR Prefix\<close> holds
  an integer prefix length, or the string \<^verbatim>\<open>N/A\<close> for an entity without address space.
\<close>

datatype cell = IntCell int | StrCell string

record row =
  address :: string
  cidr_prefix :: cell
  ip_range :: string
  subnet_name :: string
  vnet_name :: string
  resource_group_name :: string
  subscription_name :: string
  region :: string
  status :: string

text \<open>
  \<^verbatim>\<open>ipaddress.ip_network\<close> applied to a string is the standard library's parser; the
  model takes it as a parameter: \<open>Inr\<close> the network object, \<open>Inl\<close> the exception raised.
\<close>

type_synonym parser = "string \<Rightarrow> error + net"

text \<open>The f-string \<^verbatim>\<open>f"{row['Address']}/{row['CIDR Prefix']}"\<close> formats an integer in decimal.\<close>

fun str_nat :: "nat \<Rightarrow> string" where
  "str_nat n = (if n < 10 then [''0123456789'' ! n]
                else str_nat (n div 10) @ [''0123456789'' ! (n mod 10)])"

declare str_nat.simps [simp del]

definition str_cell :: "cell \<Rightarrow> string" where
  "str_cell c = (case c of
       IntCell i \<Rightarrow> (if i < 0 then CHR ''-'' # str_nat (nat (- i)) else str_nat (nat i))
     | StrCell s \<Rightarrow> s)"

definition row_network :: "parser \<Rightarrow> row \<Rightarrow> error + net" where
  "row_network ip_network r = ip_network (address r @ ''/'' @ str_cell (cidr_prefix r))"

text \<open>
  \<^verbatim>\<open>sum(ip_network(...).num_addresses for row in rows if row["Status"] == "Used")\<close>; an
  exception of the parser ends the sum.
\<close>

fun sum_used :: "parser \<Rightarrow> row list \<Rightarrow> error + int" where
  "sum_used ip_network [] = Inr 0"
| "sum_used ip_network (r # rs) =
     (if status r = ''Used'' then
        (case row_network ip_network r of
           Inl e \<Rightarrow> Inl e
         | Inr n \<Rightarrow>
             (case sum_used ip_network rs of
                Inl e \<Rightarrow> Inl e
              | Inr s \<Rightarrow> Inr (int (num_addresses n) + s)))
      else sum_used ip_network rs)"

record pie =
  cidr_range :: net
  allocated :: int
  unallocated :: int

text \<open>
  \<^verbatim>\<open>get_pie_data\<close>. The parents are network objects, on which \<^verbatim>\<open>ip_network\<close> returns an
  equal network; \<^verbatim>\<open>cidr_data\<close> is a dict keyed by the text of the parent, which identifies
  the parent, so the model keys it by the parent itself. A missing key raises
  \<^verbatim>\<open>KeyError\<close>. Python integers are unbounded: \<open>int\<close>.
\<close>

fun get_pie_data :: "parser \<Rightarrow> net list \<Rightarrow> (net \<rightharpoonup> row list) \<Rightarrow> error + pie list" where
  "get_pie_data ip_network [] cidr_data = Inr []"
| "get_pie_data ip_network (cidr # user_cidrs) cidr_data =
     (let total_ips = int (num_addresses cidr) in
      case cidr_data cidr of
        None \<Rightarrow> Inl KeyError
      | Some rows \<Rightarrow>
          (case sum_used ip_network rows of
             Inl e \<Rightarrow> Inl e
           | Inr used_ips \<Rightarrow>
               (case get_pie_data ip_network user_cidrs cidr_data of
                  Inl e \<Rightarrow> Inl e
                | Inr pie_data \<Rightarrow>
                    Inr (\<lparr>cidr_range = cidr, allocated = used_ips,
                          unallocated = max (total_ips - used_ips) 0\<rparr> # pie_data))))"

text \<open>
  The specification's words (section 4.4): the address count of a block is
  \<open>2 ^ (addressWidth - prefixLength)\<close>; the occupied count is the sum of the address counts of
  the Used rows, the total is the address count of the parent, the free count is
  \<open>max (total - occupied) 0\<close>.
\<close>

definition address_count :: "net \<Rightarrow> int" where
  "address_count b = 2 ^ (max_prefixlen (version b) - prefixlen b)"

definition parent_summary :: "net \<Rightarrow> net list \<Rightarrow> pie" where
  "parent_summary parent used_blocks =
     (let occupied = (\<Sum>b\<leftarrow>used_blocks. address_count b);
          total = address_count parent
      in \<lparr>cidr_range = parent, allocated = occupied,
          unallocated = max (total - occupied) 0\<rparr>)"

lemma int_num_addresses: "valid_net n \<Longrightarrow> int (num_addresses n) = address_count n"
  by (simp add: num_addresses_valid address_count_def room_def)

lemma sum_used_blocks:
  assumes "\<And>s n. ip_network s = Inr n \<Longrightarrow> valid_net n"
    "map (row_network ip_network) (filter (\<lambda>r. status r = ''Used'') rows) = map Inr blocks"
  shows "sum_used ip_network rows = Inr (\<Sum>b\<leftarrow>blocks. address_count b)"
  using assms(2)
proof (induction rows arbitrary: blocks)
  case Nil
  then show ?case by simp
next
  case (Cons r rs)
  show ?case
  proof (cases "status r = ''Used''")
    case False
    with Cons show ?thesis by simp
  next
    case True
    with Cons.prems obtain b bs where b: "blocks = b # bs"
      and rb: "row_network ip_network r = Inr b"
      and rest: "map (row_network ip_network) (filter (\<lambda>r. status r = ''Used'') rs) = map Inr bs"
      by (cases blocks) auto
    have "valid_net b" using rb assms(1) by (simp add: row_network_def)
    then have "int (num_addresses b) = address_count b" by (rule int_num_addresses)
    with Cons.IH [OF rest] True rb show ?thesis by (simp add: b)
  qed
qed

text \<open>
  C5. When the parser returns network objects and \<open>blocks_of c\<close> are the blocks of the Used
  rows of parent \<open>c\<close>, \<^verbatim>\<open>get_pie_data\<close> returns one aggregate per parent, in order, with
  Allocated the sum of \<open>2 ^ (width - prefix length)\<close> over the blocks of the Used rows and
  Unallocated \<open>max (total - Allocated) 0\<close>, which is never negative.
\<close>

theorem get_pie_data_summary:
  assumes "\<And>s n. ip_network s = Inr n \<Longrightarrow> valid_net n"
    and "\<forall>c\<in>set user_cidrs. valid_net c"
    and "\<forall>c\<in>set user_cidrs. \<exists>rows. cidr_data c = Some rows \<and>
           map (row_network ip_network) (filter (\<lambda>r. status r = ''Used'') rows)
             = map Inr (blocks_of c)"
  shows "get_pie_data ip_network user_cidrs cidr_data
           = Inr (map (\<lambda>c. parent_summary c (blocks_of c)) user_cidrs) \<and>
         (\<forall>c. allocated (parent_summary c (blocks_of c))
                = (\<Sum>b\<leftarrow>blocks_of c. 2 ^ (max_prefixlen (version b) - prefixlen b)) \<and>
              unallocated (parent_summary c (blocks_of c))
                = max (2 ^ (max_prefixlen (version c) - prefixlen c)
                         - allocated (parent_summary c (blocks_of c))) 0 \<and>
              0 \<le> unallocated (parent_summary c (blocks_of c)))"
proof
  show "get_pie_data ip_network user_cidrs cidr_data
           = Inr (map (\<lambda>c. parent_summary c (blocks_of c)) user_cidrs)"
    using assms(2,3)
  proof (induction user_cidrs)
    case Nil
    show ?case by simp
  next
    case (Cons c cs)
    from Cons.prems(2) obtain rows where rows: "cidr_data c = Some rows"
      and bl: "map (row_network ip_network) (filter (\<lambda>r. status r = ''Used'') rows)
             = map Inr (blocks_of c)" by auto
    have s: "sum_used ip_network rows = Inr (\<Sum>b\<leftarrow>blocks_of c. address_count b)"
      using assms(1) bl by (rule sum_used_blocks)
    have t: "int (num_addresses c) = address_count c"
      using Cons.prems(1) by (simp add: int_num_addresses)
    have "get_pie_data ip_network cs cidr_data
           = Inr (map (\<lambda>c. parent_summary c (blocks_of c)) cs)"
      using Cons.IH Cons.prems by simp
    with rows s t show ?case by (simp add: parent_summary_def Let_def)
  qed
  show "\<forall>c. allocated (parent_summary c (blocks_of c))
                = (\<Sum>b\<leftarrow>blocks_of c. 2 ^ (max_prefixlen (version b) - prefixlen b)) \<and>
              unallocated (parent_summary c (blocks_of c))
                = max (2 ^ (max_prefixlen (version c) - prefixlen c)
                         - allocated (parent_summary c (blocks_of c))) 0 \<and>
              0 \<le> unallocated (parent_summary c (blocks_of c))"
    by (simp add: parent_summary_def Let_def address_count_def)
qed

section \<open>The normalizer: \<^verbatim>\<open>sort_ipam_dataframe\<close>\<close>

text \<open>
  The order pandas puts on a column of mixed values when it sorts: numbers first, in
  ascending order, then strings, in ascending order.
\<close>

instantiation cell :: linorder
begin

fun less_eq_cell :: "cell \<Rightarrow> cell \<Rightarrow> bool" where
  "less_eq_cell (IntCell i) (IntCell j) \<longleftrightarrow> i \<le> j"
| "less_eq_cell (IntCell i) (StrCell t) \<longleftrightarrow> True"
| "less_eq_cell (StrCell s) (IntCell j) \<longleftrightarrow> False"
| "less_eq_cell (StrCell s) (StrCell t) \<longleftrightarrow> s \<le> t"

definition less_cell :: "cell \<Rightarrow> cell \<Rightarrow> bool" where
  "less_cell a b \<longleftrightarrow> a \<le> b \<and> \<not> b \<le> a"

instance
proof
  fix x y z :: cell
  show "x < y \<longleftrightarrow> x \<le> y \<and> \<not> y \<le> x" by (simp add: less_cell_def)
  show "x \<le> x" by (cases x) simp_all
  show "x \<le> y \<Longrightarrow> y \<le> z \<Longrightarrow> x \<le> z"
    by (cases x; cases y; cases z) simp_all
  show "x \<le> y \<Longrightarrow> y \<le> x \<Longrightarrow> x = y"
    by (cases x; cases y) simp_all
  show "x \<le> y \<or> y \<le> x"
    by (cases x; cases y) auto
qed

end

text \<open>
  \<^verbatim>\<open>ip_key\<close>: the integer of the network address, or \<^verbatim>\<open>float('inf')\<close> when the parser
  raises.
\<close>

definition ip_key :: "parser \<Rightarrow> string \<Rightarrow> enat" where
  "ip_key ip_network addr =
     (case ip_network addr of Inr n \<Rightarrow> enat (network_address n) | Inl e \<Rightarrow> \<infinity>)"

text \<open>
  The value of \<^verbatim>\<open>float(n)\<close> for a natural number without overflow: \<open>n\<close> rounded to 53
  significant bits, a tie to the even neighbour. \<open>excess_bits n\<close> is the number of bits
  of \<open>n\<close> beyond 53.
\<close>

fun excess_bits :: "nat \<Rightarrow> nat" where
  "excess_bits n = (if n < 2 ^ 53 then 0 else Suc (excess_bits (n div 2)))"

declare excess_bits.simps [simp del]

definition float_of_nat :: "nat \<Rightarrow> nat" where
  "float_of_nat n =
     (let e = excess_bits n; q = n div 2 ^ e; r = n mod 2 ^ e
      in if 2 * r > 2 ^ e \<or> (2 * r = 2 ^ e \<and> odd q) then (q + 1) * 2 ^ e else q * 2 ^ e)"

text \<open>
  \<^verbatim>\<open>df["Address"].map(ip_key)\<close> makes the key column. pandas infers the type of the
  column from its values: integers alone stay exact; integers together with the float
  \<^verbatim>\<open>inf\<close> become a column of 64-bit floats when every integer fits 64 bits, each integer
  converted to the nearest float; when an integer does not fit 64 bits the column holds
  the Python objects themselves, which compare exactly.
\<close>

definition float64_column :: "enat list \<Rightarrow> bool" where
  "float64_column keys \<longleftrightarrow>
     \<infinity> \<in> set keys \<and>
     \<not> list_ex (\<lambda>k. case k of enat n \<Rightarrow> 2 ^ 64 \<le> n | \<infinity> \<Rightarrow> False) keys"

definition column_value :: "bool \<Rightarrow> enat \<Rightarrow> enat" where
  "column_value as_float k =
     (case k of enat n \<Rightarrow> if as_float then enat (float_of_nat n) else enat n | \<infinity> \<Rightarrow> \<infinity>)"

definition ip_sort_column :: "enat list \<Rightarrow> enat list" where
  "ip_sort_column keys = map (column_value (float64_column keys)) keys"

text \<open>
  \<^verbatim>\<open>df.sort_values(by=["_ip_sort", "CIDR Prefix", "Status"])\<close>: with several columns pandas
  sorts by a stable sort on each key in turn, the last key first.
\<close>

definition sort_values :: "(enat \<times> row) list \<Rightarrow> (enat \<times> row) list" where
  "sort_values df =
     sort_key (\<lambda>(ip_sort, r). ip_sort)
       (sort_key (\<lambda>(ip_sort, r). cidr_prefix r)
          (sort_key (\<lambda>(ip_sort, r). status r) df))"

text \<open>
  \<^verbatim>\<open>sort_ipam_dataframe\<close>: a frame is the list of its rows; it has the column
  \<^verbatim>\<open>Address\<close> unless it has no row. The key column is added, the frame sorted and the
  key column dropped.
\<close>

definition sort_ipam_dataframe :: "parser \<Rightarrow> row list \<Rightarrow> row list" where
  "sort_ipam_dataframe ip_network df =
     (if df = [] then df
      else map snd (sort_values
             (zip (ip_sort_column (map (\<lambda>r. ip_key ip_network (address r)) df)) df)))"

text \<open>
  The three keys of a row, compared lexicographically: with the numeric address as the
  specification has it (\<open>row_key\<close>), and with the value the key column holds for the row
  in a frame (\<open>stored_row_key\<close>).
\<close>

definition row_key :: "parser \<Rightarrow> row \<Rightarrow> enat \<times> cell \<times> string" where
  "row_key ip_network r = (ip_key ip_network (address r), cidr_prefix r, status r)"

definition stored_row_key :: "parser \<Rightarrow> row list \<Rightarrow> row \<Rightarrow> enat \<times> cell \<times> string" where
  "stored_row_key ip_network df r =
     (column_value (float64_column (map (\<lambda>r. ip_key ip_network (address r)) df))
        (ip_key ip_network (address r)),
      cidr_prefix r, status r)"

lemma sort_key_twice:
  fixes f :: "'a \<Rightarrow> 'b::linorder" and g :: "'a \<Rightarrow> 'c::linorder"
  shows "sort_key f (sort_key g xs) = sort_key (\<lambda>x. (f x, g x)) xs"
proof (rule sym, rule properties_for_sort_key)
  let ?ys = "sort_key f (sort_key g xs)"
  show "mset ?ys = mset xs" by simp
  show "filter (\<lambda>x. (f k, g k) = (f x, g x)) ?ys = filter (\<lambda>x. (f k, g k) = (f x, g x)) xs"
    for k
  proof -
    have "filter (\<lambda>x. (f k, g k) = (f x, g x)) ?ys
        = filter (\<lambda>x. g x = g k) (filter (\<lambda>x. f x = f k) ?ys)"
      by (simp add: conj_commute eq_commute)
    also have "\<dots> = filter (\<lambda>x. g x = g k) (filter (\<lambda>x. f x = f k) (sort_key g xs))"
      by (simp only: sort_key_stable)
    also have "\<dots> = filter (\<lambda>x. f x = f k) (filter (\<lambda>x. g x = g k) (sort_key g xs))"
      by (simp add: conj_commute)
    also have "\<dots> = filter (\<lambda>x. f x = f k) (filter (\<lambda>x. g x = g k) xs)"
      by (simp only: sort_key_stable)
    also have "\<dots> = filter (\<lambda>x. (f k, g k) = (f x, g x)) xs"
      by (simp add: conj_commute eq_commute)
    finally show ?thesis .
  qed
  show "sorted (map (\<lambda>x. (f x, g x)) ?ys)"
  proof -
    have "sorted (map (\<lambda>x. (f x, g x)) zs)"
      if "sorted (map f zs)" "\<And>c. sorted (map g (filter (\<lambda>x. f x = c) zs))" for zs
      using that
    proof (induction zs)
      case Nil
      show ?case by simp
    next
      case (Cons z zs)
      have s: "sorted (map f zs)" using Cons.prems(1) by simp
      have t: "sorted (map g (filter (\<lambda>x. f x = c) zs))" for c
        using Cons.prems(2) [of c] by (cases "f z = c") simp_all
      have "(f z, g z) \<le> (f y, g y)" if y: "y \<in> set zs" for y
      proof (cases "f z = f y")
        case True
        from Cons.prems(2) [of "f z"] y True have "g z \<le> g y" by auto
        with True show ?thesis by (simp add: less_eq_prod_def)
      next
        case False
        moreover from Cons.prems(1) y have "f z \<le> f y" by auto
        ultimately have "f z < f y" by simp
        then show ?thesis by (simp add: less_eq_prod_def)
      qed
      with Cons.IH [OF s t] show ?case by simp
    qed
    moreover have "sorted (map f ?ys)" by (rule sorted_sort_key)
    moreover have "sorted (map g (filter (\<lambda>x. f x = c) ?ys))" for c
      by (simp only: sort_key_stable sorted_filter sorted_sort_key)
    ultimately show ?thesis by blast
  qed
qed

lemma insort_key_map:
  "insort_key k (h x) (map h ys) = map h (insort_key (\<lambda>y. k (h y)) x ys)"
  by (induction ys) simp_all

lemma sort_key_map:
  "sort_key k (map h xs) = map h (sort_key (\<lambda>y. k (h y)) xs)"
  by (induction xs) (simp_all add: insort_key_map)

lemma sort_ipam_dataframe_sort_key:
  "sort_ipam_dataframe ip_network df = sort_key (stored_row_key ip_network df) df"
proof -
  let ?c = "column_value (float64_column (map (\<lambda>r. ip_key ip_network (address r)) df))"
  let ?h = "\<lambda>r. (?c (ip_key ip_network (address r)), r)"
  have z: "zip (ip_sort_column (map (\<lambda>r. ip_key ip_network (address r)) df)) df = map ?h df"
    by (simp add: ip_sort_column_def zip_map1 zip_same_conv_map)
  have "sort_values (map ?h df)
      = sort_key (\<lambda>x. (fst x, cidr_prefix (snd x), status (snd x))) (map ?h df)"
    by (simp add: sort_values_def sort_key_twice case_prod_unfold)
  also have "\<dots> = map ?h (sort_key (stored_row_key ip_network df) df)"
    by (simp add: sort_key_map stored_row_key_def [abs_def])
  finally have "map snd (sort_values (map ?h df)) = sort_key (stored_row_key ip_network df) df"
    by (simp add: comp_def)
  then show ?thesis by (simp add: sort_ipam_dataframe_def z)
qed

lemma excess_bits_small: "n < 2 ^ 53 \<Longrightarrow> excess_bits n = 0"
  by (simp add: excess_bits.simps)

lemma float_of_nat_exact: "n < 2 ^ 53 \<Longrightarrow> float_of_nat n = n"
  by (simp add: float_of_nat_def excess_bits_small)

lemma sort_key_cong_set:
  assumes "\<And>x. x \<in> set xs \<Longrightarrow> f x = g x"
  shows "sort_key f xs = sort_key g xs"
proof -
  have "map f xs = map g xs" using assms by simp
  have "sort_key g xs = sort_key f xs"
  proof (rule properties_for_sort_key)
    show "mset (sort_key f xs) = mset xs" by simp
    show "filter (\<lambda>x. g k = g x) (sort_key f xs) = filter (\<lambda>x. g k = g x) xs"
      if "k \<in> set (sort_key f xs)" for k
    proof -
      have k: "k \<in> set xs" using that by simp
      have "filter (\<lambda>x. g k = g x) (sort_key f xs) = filter (\<lambda>x. f x = f k) (sort_key f xs)"
        using assms k by (intro filter_cong refl) (auto simp: eq_commute)
      also have "\<dots> = filter (\<lambda>x. f x = f k) xs" by (rule sort_key_stable)
      also have "\<dots> = filter (\<lambda>x. g k = g x) xs"
        using assms k by (intro filter_cong refl) (auto simp: eq_commute)
      finally show ?thesis .
    qed
    have "map g (sort_key f xs) = map f (sort_key f xs)"
      using assms by simp
    then show "sorted (map g (sort_key f xs))" by (simp only: sorted_sort_key)
  qed
  then show ?thesis by simp
qed

text \<open>
  Where the key column holds the numeric addresses themselves, the normalizer is the
  stable sort by numeric address, prefix length and status: in a frame in which every
  address parses, and in a frame whose addresses are all below \<open>2 ^ 53\<close>, as every IPv4
  address is.
\<close>

lemma sort_ipam_dataframe_exact_keys:
  assumes "(\<forall>r\<in>set df. ip_key ip_network (address r) \<noteq> \<infinity>) \<or>
           (\<forall>r\<in>set df. \<forall>n. ip_key ip_network (address r) = enat n \<longrightarrow> n < 2 ^ 53)"
  shows "sort_ipam_dataframe ip_network df = sort_key (row_key ip_network) df"
proof -
  have "stored_row_key ip_network df r = row_key ip_network r" if r: "r \<in> set df" for r
  proof (cases "ip_key ip_network (address r)")
    case infinity
    then show ?thesis by (simp add: stored_row_key_def row_key_def column_value_def)
  next
    case (enat n)
    from assms show ?thesis
    proof
      assume "\<forall>r\<in>set df. ip_key ip_network (address r) \<noteq> \<infinity>"
      then have "\<not> float64_column (map (\<lambda>r. ip_key ip_network (address r)) df)"
        by (auto simp: float64_column_def)
      with enat show ?thesis
        by (simp add: stored_row_key_def row_key_def column_value_def)
    next
      assume "\<forall>r\<in>set df. \<forall>n. ip_key ip_network (address r) = enat n \<longrightarrow> n < 2 ^ 53"
      with r enat have "n < 2 ^ 53" by blast
      with enat show ?thesis
        by (simp add: stored_row_key_def row_key_def column_value_def float_of_nat_exact)
    qed
  qed
  then have "sort_key (stored_row_key ip_network df) df = sort_key (row_key ip_network) df"
    by (rule sort_key_cong_set)
  then show ?thesis by (simp only: sort_ipam_dataframe_sort_key)
qed

text \<open>
  C7. The normalizer is deterministic: two runs on identical input give identical ordered
  output.
\<close>

theorem sort_ipam_dataframe_deterministic:
  assumes "df1 = df2"
  shows "sort_ipam_dataframe ip_network df1 = sort_ipam_dataframe ip_network df2"
  using assms by (rule arg_cong)

section \<open>Concrete scenarios\<close>

lemmas eval_defs =
  find_unused_subnets_def sort_used_def subnet_of_def broadcast_address_def hostmask_def
  address_exclude_def two_subnets_def subnets_def unpack2_def exclude_loop.simps
  py_range_def upt_rec drop_bit_eq_div

text \<open>
  C8. With parent 10.0.0.0/24 (address 167772160): the occupied blocks 10.0.0.0/26 and
  10.0.0.128/25 leave exactly the free block 10.0.0.64/26; no occupied block leaves
  exactly the parent itself; the parent as the only occupied block leaves nothing.
\<close>

theorem find_unused_subnets_scenarios:
  "find_unused_subnets \<lparr>version = IPv4, network_address = 167772160, prefixlen = 24\<rparr>
     [\<lparr>version = IPv4, network_address = 167772160, prefixlen = 26\<rparr>,
      \<lparr>version = IPv4, network_address = 167772288, prefixlen = 25\<rparr>]
   = Inr [\<lparr>version = IPv4, network_address = 167772224, prefixlen = 26\<rparr>]
   \<and> find_unused_subnets \<lparr>version = IPv4, network_address = 167772160, prefixlen = 24\<rparr> []
   = Inr [\<lparr>version = IPv4, network_address = 167772160, prefixlen = 24\<rparr>]
   \<and> find_unused_subnets \<lparr>version = IPv4, network_address = 167772160, prefixlen = 24\<rparr>
     [\<lparr>version = IPv4, network_address = 167772160, prefixlen = 24\<rparr>]
   = Inr []"
  by (simp add: eval_defs)

section \<open>Witnesses at concrete inputs\<close>

abbreviation ipv4_network :: "nat \<Rightarrow> nat \<Rightarrow> net" where
  "ipv4_network a p \<equiv> \<lparr>version = IPv4, network_address = a, prefixlen = p\<rparr>"

abbreviation ipv6_network :: "nat \<Rightarrow> nat \<Rightarrow> net" where
  "ipv6_network a p \<equiv> \<lparr>version = IPv6, network_address = a, prefixlen = p\<rparr>"

lemma valid_examples:
  "valid_net (ipv4_network 167772160 24)"
  "valid_net (ipv4_network 167772160 26)"
  "valid_net (ipv4_network 167772288 25)"
  "valid_net (ipv4_network 167772224 26)"
  "valid_net (ipv4_network 167772192 27)"
  by (simp_all add: valid_net_def hostmask_def)

lemma scenario_A:
  "find_unused_subnets (ipv4_network 167772160 24)
     [ipv4_network 167772160 26, ipv4_network 167772288 25]
   = Inr [ipv4_network 167772224 26]"
  by (simp add: eval_defs)

theorem find_unused_subnets_aligned_witness:
  "valid_net (ipv4_network 167772160 24) \<and>
   find_unused_subnets (ipv4_network 167772160 24)
     [ipv4_network 167772160 26, ipv4_network 167772288 25]
     = Inr [ipv4_network 167772224 26] \<and>
   ipv4_network 167772224 26 \<in> set [ipv4_network 167772224 26] \<and>
   prefixlen (ipv4_network 167772224 26) \<le> max_prefixlen (version (ipv4_network 167772224 26)) \<and>
   2 ^ (max_prefixlen (version (ipv4_network 167772224 26)) - prefixlen (ipv4_network 167772224 26))
     dvd network_address (ipv4_network 167772224 26) \<and>
   network_address (ipv4_network 167772224 26) AND hostmask (ipv4_network 167772224 26) = 0"
proof -
  have m: "ipv4_network 167772224 26 \<in> set [ipv4_network 167772224 26]" by simp
  from find_unused_subnets_aligned [OF valid_examples(1) scenario_A m]
  show ?thesis using valid_examples(1) scenario_A m by blast
qed

theorem find_unused_subnets_permutation_witness:
  "mset [ipv4_network 167772288 25, ipv4_network 167772160 26]
     = mset [ipv4_network 167772160 26, ipv4_network 167772288 25] \<and>
   find_unused_subnets (ipv4_network 167772160 24)
     [ipv4_network 167772288 25, ipv4_network 167772160 26]
   = find_unused_subnets (ipv4_network 167772160 24)
     [ipv4_network 167772160 26, ipv4_network 167772288 25]"
proof -
  have m: "mset [ipv4_network 167772288 25, ipv4_network 167772160 26]
     = mset [ipv4_network 167772160 26, ipv4_network 167772288 25]" by simp
  show ?thesis
    by (rule conjI [OF m find_unused_subnets_permutation [OF m]])
qed

lemma used_valid_A:
  "\<forall>u\<in>set [ipv4_network 167772160 26, ipv4_network 167772288 25]. valid_net u"
  by (simp add: valid_examples)

lemma contained_A:
  "each_contained (ipv4_network 167772160 24)
     [ipv4_network 167772160 26, ipv4_network 167772288 25]"
  by (simp add: each_contained_def eval_defs)

theorem find_unused_subnets_exact_cover_witness:
  "valid_net (ipv4_network 167772160 24) \<and>
   valid_net (ipv4_network 167772160 26) \<and> valid_net (ipv4_network 167772288 25) \<and>
   each_contained (ipv4_network 167772160 24)
     [ipv4_network 167772160 26, ipv4_network 167772288 25] \<and>
   (\<exists>free. find_unused_subnets (ipv4_network 167772160 24)
              [ipv4_network 167772160 26, ipv4_network 167772288 25] = Inr free \<and>
      disjoint_blocks free \<and>
      (\<forall>u\<in>set [ipv4_network 167772160 26, ipv4_network 167772288 25].
         \<forall>w\<in>set [ipv4_network 167772160 26, ipv4_network 167772288 25].
           u \<noteq> w \<longrightarrow> addrs u \<inter> addrs w = {}) \<and>
      covered free \<inter> covered [ipv4_network 167772160 26, ipv4_network 167772288 25] = {} \<and>
      covered free \<union> covered [ipv4_network 167772160 26, ipv4_network 167772288 25]
        = addrs (ipv4_network 167772160 24) \<and>
      (\<Sum>f\<leftarrow>free. num_addresses f)
        + (\<Sum>u\<in>set [ipv4_network 167772160 26, ipv4_network 167772288 25]. num_addresses u)
        = num_addresses (ipv4_network 167772160 24))"
  using find_unused_subnets_exact_cover [OF valid_examples(1) used_valid_A contained_A]
    valid_examples(1,2,3) contained_A
  by blast

lemma used_valid_same_A:
  "\<forall>u\<in>set [ipv4_network 167772160 26, ipv4_network 167772288 25].
     valid_net u \<and> version u = version (ipv4_network 167772160 24)"
  by (simp add: valid_examples)

theorem find_unused_subnets_idempotent_witness:
  "valid_net (ipv4_network 167772160 24) \<and>
   valid_net (ipv4_network 167772160 26) \<and> valid_net (ipv4_network 167772288 25) \<and>
   ipv4_network 167772160 26 \<in> set [ipv4_network 167772160 26, ipv4_network 167772288 25] \<and>
   find_unused_subnets (ipv4_network 167772160 24)
     ([ipv4_network 167772160 26, ipv4_network 167772288 25] @ [ipv4_network 167772160 26])
   = find_unused_subnets (ipv4_network 167772160 24)
     [ipv4_network 167772160 26, ipv4_network 167772288 25]"
proof -
  have m: "ipv4_network 167772160 26
      \<in> set [ipv4_network 167772160 26, ipv4_network 167772288 25]" by simp
  from find_unused_subnets_idempotent [OF valid_examples(1) used_valid_A m]
  show ?thesis using valid_examples(1,2,3) m by blast
qed

theorem find_unused_subnets_within_parent_witness:
  "valid_net (ipv4_network 167772160 24) \<and>
   valid_net (ipv4_network 167772160 26) \<and> valid_net (ipv4_network 167772288 25) \<and>
   version (ipv4_network 167772160 26) = version (ipv4_network 167772160 24) \<and>
   version (ipv4_network 167772288 25) = version (ipv4_network 167772160 24) \<and>
   (\<exists>sorted free.
      sort_used [ipv4_network 167772160 26, ipv4_network 167772288 25] = Inr sorted \<and>
      (\<forall>k\<le>length sorted. \<exists>available.
          exclude_all (take k sorted) [ipv4_network 167772160 24] = Inr available \<and>
          (\<forall>a\<in>set available. subnet_of a (ipv4_network 167772160 24) = Inr True)) \<and>
      find_unused_subnets (ipv4_network 167772160 24)
        [ipv4_network 167772160 26, ipv4_network 167772288 25] = Inr free \<and>
      (\<forall>f\<in>set free. subnet_of f (ipv4_network 167772160 24) = Inr True))"
  using find_unused_subnets_within_parent [OF valid_examples(1) used_valid_same_A]
    valid_examples(1,2,3)
  by simp

lemma used_valid_same_D:
  "\<forall>u\<in>set [ipv4_network 167772160 26, ipv4_network 167772192 27].
     valid_net u \<and> version u = version (ipv4_network 167772160 24)"
  by (simp add: valid_examples)

theorem find_unused_subnets_skip_witness:
  "valid_net (ipv4_network 167772160 24) \<and>
   valid_net (ipv4_network 167772160 26) \<and> valid_net (ipv4_network 167772192 27) \<and>
   version (ipv4_network 167772160 26) = version (ipv4_network 167772160 24) \<and>
   version (ipv4_network 167772192 27) = version (ipv4_network 167772160 24) \<and>
   (\<exists>sorted free.
      sort_used [ipv4_network 167772160 26, ipv4_network 167772192 27] = Inr sorted \<and>
      find_unused_subnets (ipv4_network 167772160 24)
        [ipv4_network 167772160 26, ipv4_network 167772192 27] = Inr free \<and>
      (\<forall>k<length sorted. \<exists>available.
          exclude_all (take k sorted) [ipv4_network 167772160 24] = Inr available \<and>
          ((\<forall>a\<in>set available. \<not> addrs (sorted ! k) \<subseteq> addrs a) \<longrightarrow>
             exclude_one (sorted ! k) available = Inr available \<and>
             exclude_all (take (Suc k) sorted) [ipv4_network 167772160 24] = Inr available)))"
  using find_unused_subnets_skip [OF valid_examples(1) used_valid_same_D]
    valid_examples(1,2,5)
  by simp

text \<open>
  Scenario D of the specification: 10.0.0.32/27 after 10.0.0.0/26 was excluded is skipped.
\<close>

lemma scenario_D:
  "find_unused_subnets (ipv4_network 167772160 24)
     [ipv4_network 167772160 26, ipv4_network 167772192 27]
   = Inr [ipv4_network 167772288 25, ipv4_network 167772224 26]"
  by (simp add: eval_defs)

text \<open>
  An occupied block of the other address family is contained in no available block, yet
  it is not skipped: \<^verbatim>\<open>subnet_of\<close> raises \<^verbatim>\<open>TypeError\<close> and the run fails.
\<close>

theorem find_unused_subnets_mixed_family_fails:
  "exclude_one (ipv6_network 0 0) [ipv4_network 167772160 24] = Inl TypeError \<and>
   find_unused_subnets (ipv4_network 167772160 24) [ipv6_network 0 0] = Inl TypeError"
  by (simp add: eval_defs)

abbreviation example_row :: "string \<Rightarrow> cell \<Rightarrow> string \<Rightarrow> string \<Rightarrow> row" where
  "example_row a p n s \<equiv>
     \<lparr>address = a, cidr_prefix = p, ip_range = [], subnet_name = n, vnet_name = [],
      resource_group_name = [], subscription_name = [], region = [], status = s\<rparr>"

definition example_parser :: parser where
  "example_parser s =
     (if s = ''10.0.0.0'' then Inr \<lparr>version = IPv4, network_address = 167772160, prefixlen = 32\<rparr>
      else if s = ''10.0.0.64'' then Inr \<lparr>version = IPv4, network_address = 167772224, prefixlen = 32\<rparr>
      else if s = ''10.0.0.0/24'' then Inr \<lparr>version = IPv4, network_address = 167772160, prefixlen = 24\<rparr>
      else if s = ''10.0.0.0/26'' then Inr \<lparr>version = IPv4, network_address = 167772160, prefixlen = 26\<rparr>
      else Inl ValueError)"

text \<open>An example run of the normalizer: addressed rows first, by address, prefix length and
  status, rows tied on all keys in input order, the row without address last.\<close>

lemma sort_ipam_dataframe_example: "sort_ipam_dataframe example_parser
   [example_row ''N/A'' (StrCell ''N/A'') ''a'' ''No address space assigned'',
    example_row ''10.0.0.64'' (IntCell 26) [] ''Unused'',
    example_row ''10.0.0.0'' (IntCell 26) ''b'' ''Used'',
    example_row ''10.0.0.0'' (IntCell 24) ''vnet-scope'' ''Used'',
    example_row ''10.0.0.0'' (IntCell 26) ''c'' ''Used'']
  = [example_row ''10.0.0.0'' (IntCell 24) ''vnet-scope'' ''Used'',
    example_row ''10.0.0.0'' (IntCell 26) ''b'' ''Used'',
    example_row ''10.0.0.0'' (IntCell 26) ''c'' ''Used'',
    example_row ''10.0.0.64'' (IntCell 26) [] ''Unused'',
    example_row ''N/A'' (StrCell ''N/A'') ''a'' ''No address space assigned'']"
  by (simp add: sort_ipam_dataframe_def sort_values_def ip_key_def example_parser_def
      ip_sort_column_def float64_column_def column_value_def float_of_nat_def
      excess_bits.simps)

theorem sort_ipam_dataframe_deterministic_witness:
  "[example_row ''10.0.0.64'' (IntCell 26) [] ''Unused'',
    example_row ''10.0.0.0'' (IntCell 26) ''b'' ''Used'']
   = [example_row ''10.0.0.64'' (IntCell 26) [] ''Unused'',
      example_row ''10.0.0.0'' (IntCell 26) ''b'' ''Used''] \<and>
   sort_ipam_dataframe example_parser
     [example_row ''10.0.0.64'' (IntCell 26) [] ''Unused'',
      example_row ''10.0.0.0'' (IntCell 26) ''b'' ''Used'']
   = sort_ipam_dataframe example_parser
     [example_row ''10.0.0.64'' (IntCell 26) [] ''Unused'',
      example_row ''10.0.0.0'' (IntCell 26) ''b'' ''Used'']"
  by (rule conjI [OF refl sort_ipam_dataframe_deterministic [OF refl]])

lemma example_parser_valid: "example_parser s = Inr n \<Longrightarrow> valid_net n"
  by (auto simp: example_parser_def valid_net_def hostmask_def split: if_splits)

abbreviation example_rows :: "row list" where
  "example_rows \<equiv>
     [example_row ''10.0.0.0'' (IntCell 24) ''vnet-scope'' ''Used'',
      example_row ''10.0.0.0'' (IntCell 26) ''b'' ''Used'',
      example_row ''10.0.0.0'' (IntCell 24) ''duplicate'' ''Used'',
      example_row ''10.0.0.64'' (IntCell 26) [] ''Unused'',
      example_row ''N/A'' (StrCell ''N/A'') ''a'' ''No address space assigned'']"

lemma example_rows_blocks:
  "\<forall>c\<in>set [ipv4_network 167772160 24].
     \<exists>rows. [ipv4_network 167772160 24 \<mapsto> example_rows] c = Some rows \<and>
       map (row_network example_parser) (filter (\<lambda>r. status r = ''Used'') rows)
         = map Inr ((\<lambda>c. [ipv4_network 167772160 24, ipv4_network 167772160 26,
                           ipv4_network 167772160 24]) c)"
  by (simp add: row_network_def str_cell_def str_nat.simps example_parser_def)

lemma example_cidrs_valid: "\<forall>c\<in>set [ipv4_network 167772160 24]. valid_net c"
  by (simp add: valid_examples)

theorem get_pie_data_summary_witness:
  "get_pie_data example_parser [ipv4_network 167772160 24]
     [ipv4_network 167772160 24 \<mapsto> example_rows]
   = Inr [\<lparr>cidr_range = ipv4_network 167772160 24, allocated = 576, unallocated = 0\<rparr>]"
  using get_pie_data_summary
    [of example_parser "[ipv4_network 167772160 24]"
      "[ipv4_network 167772160 24 \<mapsto> example_rows]"
      "\<lambda>c. [ipv4_network 167772160 24, ipv4_network 167772160 26, ipv4_network 167772160 24]",
     OF example_parser_valid example_cidrs_valid example_rows_blocks]
  by (simp add: parent_summary_def address_count_def)

text \<open>
  The parser on the texts of two IPv6 addresses, \<open>2 ^ 53\<close> and \<open>2 ^ 53 + 1\<close>.
\<close>

definition example_parser6 :: parser where
  "example_parser6 s =
     (if s = ''::20:0:0:0''
      then Inr \<lparr>version = IPv6, network_address = 9007199254740992, prefixlen = 128\<rparr>
      else if s = ''::20:0:0:1''
      then Inr \<lparr>version = IPv6, network_address = 9007199254740993, prefixlen = 128\<rparr>
      else Inl ValueError)"

text \<open>
  C6, at a frame on which the code departs from it. The rows \<^verbatim>\<open>::20:0:0:1\<close>,
  \<^verbatim>\<open>::20:0:0:0\<close> and \<^verbatim>\<open>N/A\<close>, in this order, with equal prefix lengths and statuses: the
  row without address makes the key column a column of floats, in which both addresses are
  \<open>2 ^ 53\<close>; the rows tie on all keys and keep their input order, the greater address
  first. The stable sort by numeric address puts the smaller address first.
\<close>

theorem sort_ipam_dataframe_float_keys_collide:
  "sort_ipam_dataframe example_parser6
     [example_row ''::20:0:0:1'' (IntCell 128) [] ''Used'',
      example_row ''::20:0:0:0'' (IntCell 128) [] ''Used'',
      example_row ''N/A'' (StrCell ''N/A'') [] ''No address space assigned'']
   = [example_row ''::20:0:0:1'' (IntCell 128) [] ''Used'',
      example_row ''::20:0:0:0'' (IntCell 128) [] ''Used'',
      example_row ''N/A'' (StrCell ''N/A'') [] ''No address space assigned''] \<and>
   ip_key example_parser6 ''::20:0:0:0'' < ip_key example_parser6 ''::20:0:0:1'' \<and>
   sort_key (row_key example_parser6)
     [example_row ''::20:0:0:1'' (IntCell 128) [] ''Used'',
      example_row ''::20:0:0:0'' (IntCell 128) [] ''Used'',
      example_row ''N/A'' (StrCell ''N/A'') [] ''No address space assigned'']
   = [example_row ''::20:0:0:0'' (IntCell 128) [] ''Used'',
      example_row ''::20:0:0:1'' (IntCell 128) [] ''Used'',
      example_row ''N/A'' (StrCell ''N/A'') [] ''No address space assigned'']"
  by (simp add: sort_ipam_dataframe_def sort_values_def ip_key_def example_parser6_def
      ip_sort_column_def float64_column_def column_value_def float_of_nat_def
      excess_bits.simps row_key_def)

end
